theory Spec2Isabelle
  imports Main "HOL-Library.AList" "HOL-Library.Multiset" "HOL-Library.Sublist"
    "HOL-Library.Char_ord" "HOL-Library.List_Lexorder"
begin

section \<open>Python strings and integers\<close>

text \<open>
  A Python \<open>str\<close> is modelled as a \<open>string\<close> of ASCII characters: every
  statement about strings below is a statement about ASCII strings, and a
  \<open>str\<close> with a code point outside ASCII has no counterpart in the model.  The
  helpers below are the ASCII part of \<open>str.isspace\<close>, \<open>str.strip\<close>, \<open>str.lower\<close>
  and \<open>int(str)\<close>.  Python's \<open>int\<close> and the class \<^verbatim>\<open>\d\<close> of its regular expressions
  take every Unicode decimal digit (an Arabic-Indic digit as well as an ASCII
  one); among the ASCII characters these are the ten digits of \<open>is_digit\<close>.
\<close>

definition is_digit :: "char \<Rightarrow> bool" where
  "is_digit c = (c \<in> set ''0123456789'')"

definition is_pos_digit :: "char \<Rightarrow> bool" where
  "is_pos_digit c = (c \<in> set ''123456789'')"

definition digit_val :: "char \<Rightarrow> nat" where
  "digit_val c = of_char c - 48"

text \<open>\<open>str.isspace\<close> on ASCII: TAB, LF, VT, FF, CR, FS, GS, RS, US and the space.\<close>

definition is_space :: "char \<Rightarrow> bool" where
  "is_space c = (let n = (of_char c :: nat) in (9 \<le> n \<and> n \<le> 13) \<or> (28 \<le> n \<and> n \<le> 32))"

definition lstrip :: "string \<Rightarrow> string" where
  "lstrip s = dropWhile is_space s"

definition rstrip :: "string \<Rightarrow> string" where
  "rstrip s = rev (dropWhile is_space (rev s))"

definition strip :: "string \<Rightarrow> string" where
  "strip s = rstrip (lstrip s)"

definition lower_char :: "char \<Rightarrow> char" where
  "lower_char c =
     (let n = (of_char c :: nat) in if 65 \<le> n \<and> n \<le> 90 then char_of (n + 32) else c)"

definition lower :: "string \<Rightarrow> string" where
  "lower s = map lower_char s"

text \<open>Value of a string of decimal digits, most significant digit first.\<close>

definition nat_of_digits :: "string \<Rightarrow> nat" where
  "nat_of_digits s = foldl (\<lambda>acc c. 10 * acc + digit_val c) 0 s"

text \<open>
  The body of a decimal literal accepted by \<open>int\<close>: digits, where single
  underscores may stand between two digits.
\<close>

fun int_body_ok :: "string \<Rightarrow> bool" where
  "int_body_ok [] = False"
| "int_body_ok [c] = is_digit c"
| "int_body_ok (c # d # r) =
     (is_digit c \<and> (if d = CHR ''_'' then int_body_ok r else int_body_ok (d # r)))"

text \<open>
  \<open>int(s)\<close> in base 10: surrounding whitespace is dropped, one sign is allowed, and
  \<open>None\<close> stands for the \<open>ValueError\<close> that Python raises.
\<close>

definition py_int :: "string \<Rightarrow> int option" where
  "py_int s =
     (let t = strip s;
          neg = (t \<noteq> [] \<and> hd t = CHR ''-'');
          body = (if t \<noteq> [] \<and> (hd t = CHR ''-'' \<or> hd t = CHR ''+'') then tl t else t)
      in if int_body_ok body
         then Some ((if neg then - 1 else 1) * int (nat_of_digits (filter is_digit body)))
         else None)"

section \<open>Dates\<close>

text \<open>
  The value of \<open>datetime.strptime(s, "%d/%m/%Y")\<close>: a \<open>datetime\<close> whose time of day
  is midnight, so only the calendar fields are kept.
\<close>

record datetime =
  year :: int
  month :: int
  day :: int

definition is_leap :: "int \<Rightarrow> bool" where
  "is_leap y = (y mod 4 = 0 \<and> (y mod 100 \<noteq> 0 \<or> y mod 400 = 0))"

definition days_in_month :: "int \<Rightarrow> int \<Rightarrow> int" where
  "days_in_month y m =
     (if m = 2 then (if is_leap y then 29 else 28)
      else if m = 4 \<or> m = 6 \<or> m = 9 \<or> m = 11 then 30 else 31)"

text \<open>The constructor \<open>datetime(y, m, d)\<close>; \<open>None\<close> is its \<open>ValueError\<close>.\<close>

definition mk_datetime :: "int \<Rightarrow> int \<Rightarrow> int \<Rightarrow> datetime option" where
  "mk_datetime y m d =
     (if 1 \<le> y \<and> y \<le> 9999 \<and> 1 \<le> m \<and> m \<le> 12 \<and> 1 \<le> d \<and> d \<le> days_in_month y m
      then Some \<lparr>year = y, month = m, day = d\<rparr> else None)"

text \<open>
  \<open>strptime\<close> compiles the format into the regular expression
  \<^verbatim>\<open>(?P<d>3[0-1]|[1-2]\d|0[1-9]|[1-9]| [1-9])/(?P<m>1[0-2]|0[1-9]|[1-9])/(?P<Y>\d\d\d\d)\<close>
  and matches it at the start of the string.  Each piece below returns the ways
  it can match a prefix, in the order the backtracking matcher tries them,
  each with the rest of the string.  On the ASCII strings of the model \<^verbatim>\<open>\d\<close> is
  \<open>is_digit\<close>; that \<^verbatim>\<open>\d\<close> also matches the decimal digits of other scripts, which
  \<open>int\<close> converts too, lies outside the model.
\<close>

definition alt1 :: "(char \<Rightarrow> bool) \<Rightarrow> string \<Rightarrow> (string \<times> string) list" where
  "alt1 p s = (case s of a # r \<Rightarrow> if p a then [([a], r)] else [] | [] \<Rightarrow> [])"

definition alt2 :: "(char \<Rightarrow> bool) \<Rightarrow> (char \<Rightarrow> bool) \<Rightarrow> string \<Rightarrow> (string \<times> string) list" where
  "alt2 p q s =
     (case s of a # b # r \<Rightarrow> if p a \<and> q b then [([a, b], r)] else [] | _ \<Rightarrow> [])"

definition re_d :: "string \<Rightarrow> (string \<times> string) list" where
  "re_d s =
     alt2 (\<lambda>c. c = CHR ''3'') (\<lambda>c. c \<in> set ''01'') s
     @ alt2 (\<lambda>c. c \<in> set ''12'') is_digit s
     @ alt2 (\<lambda>c. c = CHR ''0'') is_pos_digit s
     @ alt1 is_pos_digit s
     @ alt2 (\<lambda>c. c = CHR '' '') is_pos_digit s"

definition re_m :: "string \<Rightarrow> (string \<times> string) list" where
  "re_m s =
     alt2 (\<lambda>c. c = CHR ''1'') (\<lambda>c. c \<in> set ''012'') s
     @ alt2 (\<lambda>c. c = CHR ''0'') is_pos_digit s
     @ alt1 is_pos_digit s"

definition re_Y :: "string \<Rightarrow> (string \<times> string) list" where
  "re_Y s =
     (case s of a # b # c # d # r \<Rightarrow>
        if is_digit a \<and> is_digit b \<and> is_digit c \<and> is_digit d then [([a, b, c, d], r)] else []
      | _ \<Rightarrow> [])"

definition lit :: "char \<Rightarrow> string \<Rightarrow> string list" where
  "lit c s = (case s of a # r \<Rightarrow> if a = c then [r] else [] | [] \<Rightarrow> [])"

text \<open>All matches of the whole expression, first choice first: (d, m, Y, rest).\<close>

definition format_regex_match :: "string \<Rightarrow> (string \<times> string \<times> string \<times> string) list" where
  "format_regex_match s =
     [(d, m, y, rest).
        (d, r1) \<leftarrow> re_d s, r2 \<leftarrow> lit CHR ''/'' r1,
        (m, r3) \<leftarrow> re_m r2, r4 \<leftarrow> lit CHR ''/'' r3,
        (y, rest) \<leftarrow> re_Y r4]"

text \<open>
  \<open>strptime\<close> takes the first match, raises \<open>ValueError\<close> when there is none or when
  it does not reach the end of the string, converts the three groups with \<open>int\<close> and
  builds the date, which raises \<open>ValueError\<close> for a day the month does not have.
\<close>

definition strptime_dmy :: "string \<Rightarrow> datetime option" where
  "strptime_dmy s =
     (case format_regex_match s of
        [] \<Rightarrow> None
      | (d, m, y, rest) # _ \<Rightarrow>
          if rest \<noteq> [] then None
          else (case (py_int y, py_int m, py_int d) of
                  (Some yy, Some mm, Some dd) \<Rightarrow> mk_datetime yy mm dd
                | _ \<Rightarrow> None))"

text \<open>\<open>parse_date_input\<close>: the \<open>ValueError\<close> of \<open>strptime\<close> becomes \<open>None\<close>.\<close>

definition parse_date_input :: "string \<Rightarrow> datetime option" where
  "parse_date_input date_str = strptime_dmy date_str"

text \<open>Comparison of two naive datetimes at midnight.\<close>

definition datetime_gt :: "datetime \<Rightarrow> datetime \<Rightarrow> bool" where
  "datetime_gt a b =
     (year a > year b \<or> (year a = year b \<and>
        (month a > month b \<or> (month a = month b \<and> day a > day b))))"

definition digit_char :: "nat \<Rightarrow> char" where
  "digit_char n = ''0123456789'' ! (n mod 10)"

definition pad2 :: "int \<Rightarrow> string" where
  "pad2 n = [digit_char (nat n div 10), digit_char (nat n)]"

definition pad4 :: "int \<Rightarrow> string" where
  "pad4 n = [digit_char (nat n div 1000), digit_char (nat n div 100),
             digit_char (nat n div 10), digit_char (nat n)]"

text \<open>
  \<open>strftime("%Y-%m-%d")\<close>, with the year written with four digits (what every
  platform prints from the year 1000 on).
\<close>

definition strftime_ymd :: "datetime \<Rightarrow> string" where
  "strftime_ymd dt = pad4 (year dt) @ ''-'' @ pad2 (month dt) @ ''-'' @ pad2 (day dt)"

text \<open>The day/month/year rendering \<open>strftime("%d/%m/%Y")\<close> of a date.\<close>

definition strftime_dmy :: "datetime \<Rightarrow> string" where
  "strftime_dmy dt = pad2 (day dt) @ ''/'' @ pad2 (month dt) @ ''/'' @ pad4 (year dt)"

section \<open>Commits and the commit range query\<close>

record commit =
  hexsha :: string
  committed_date :: int
  message :: string
  parents :: "string list"

text \<open>
  The version-control backend is a parameter: \<open>iter_commits repo branch since until\<close>
  is the list \<open>repo.iter_commits(branch, since=..., until=...)\<close> delivers, and
  \<open>diff_names repo parent child\<close> the lines of
  \<open>repo.git.diff('--name-only', parent, child)\<close>, each a relative path split at its
  separators.
\<close>

type_synonym path = "string list"

record repo =
  iter_commits :: "string \<Rightarrow> string \<Rightarrow> string \<Rightarrow> commit list"
  diff_names :: "string \<Rightarrow> string \<Rightarrow> path list"

text \<open>
  \<open>list.sort(key=..., reverse=True)\<close>: the list is reversed, sorted by a stable
  ascending sort and reversed again.
\<close>

definition py_sort_reverse :: "('a \<Rightarrow> int) \<Rightarrow> 'a list \<Rightarrow> 'a list" where
  "py_sort_reverse key xs = rev (sort_key key (rev xs))"

text \<open>
  The result of the query together with its effects: the lines printed and the
  enumerations asked of the backend, as (branch, since, until).
\<close>

record query_result =
  returned :: "commit list"
  said :: "string list"
  enumerated :: "(string \<times> string \<times> string) list"

definition get_commits_between_dates ::
    "repo \<Rightarrow> string \<Rightarrow> string \<Rightarrow> string \<Rightarrow> query_result" where
  "get_commits_between_dates rp branch start_date_str end_date_str =
     (case parse_date_input start_date_str of
        None \<Rightarrow> \<lparr>returned = [],
                 said = [''Invalid start date: '' @ start_date_str @ ''.''],
                 enumerated = []\<rparr>
      | Some start_date_obj \<Rightarrow>
         (case parse_date_input end_date_str of
            None \<Rightarrow> \<lparr>returned = [],
                     said = [''Invalid end date: '' @ end_date_str @ ''.''],
                     enumerated = []\<rparr>
          | Some end_date_obj \<Rightarrow>
              if datetime_gt start_date_obj end_date_obj
              then \<lparr>returned = [],
                    said = [''Start date must be earlier than or equal to end date.''],
                    enumerated = []\<rparr>
              else
                (let start_date = strftime_ymd start_date_obj;
                     end_date = strftime_ymd end_date_obj;
                     commits = iter_commits rp branch start_date end_date
                 in \<lparr>returned = py_sort_reverse committed_date commits,
                     said = [],
                     enumerated = [(branch, start_date, end_date)]\<rparr>)))"


section \<open>The file system\<close>

text \<open>
  A file holds bytes, the text \<open>json.dump\<close> wrote (identified with the value it
  encodes) or a ZIP archive (the list of its entries: name and data).  A path
  is the list of its components from the root; a relative path is the list of
  its components from a directory.  The model has no links, no permissions
  and no component \<open>.\<close> or \<open>..\<close>.
\<close>

datatype json = JString string | JArray "json list" | JObject "(string \<times> json) list"

datatype filedata = Bytes string | JsonText json | Zip "(path \<times> filedata) list"

datatype node = File filedata | Dir "(string \<times> node) list"

datatype exn =
  FileNotFoundError | NotADirectoryError | IsADirectoryError | FileExistsError
  | PermissionError | IOError | SameFileError | EOFError | ValueError

fun lookup :: "node \<Rightarrow> path \<Rightarrow> node option" where
  "lookup n [] = Some n"
| "lookup n (x # p) =
     (case n of
        File _ \<Rightarrow> None
      | Dir es \<Rightarrow> (case map_of es x of None \<Rightarrow> None | Some m \<Rightarrow> lookup m p))"

definition path_exists :: "node \<Rightarrow> path \<Rightarrow> bool" where
  "path_exists fs p = (lookup fs p \<noteq> None)"

definition path_isdir :: "node \<Rightarrow> path \<Rightarrow> bool" where
  "path_isdir fs p = (case lookup fs p of Some (Dir _) \<Rightarrow> True | _ \<Rightarrow> False)"

definition path_isfile :: "node \<Rightarrow> path \<Rightarrow> bool" where
  "path_isfile fs p = (case lookup fs p of Some (File _) \<Rightarrow> True | _ \<Rightarrow> False)"

text \<open>
  \<open>put fs p v\<close> stores \<open>v\<close> under the last component of \<open>p\<close> in the directory
  \<open>butlast p\<close>, which has to exist; \<open>remove fs p\<close> takes that entry away.
\<close>

fun put :: "node \<Rightarrow> path \<Rightarrow> node \<Rightarrow> node option" where
  "put n [] v = None"
| "put n [x] v = (case n of File _ \<Rightarrow> None | Dir es \<Rightarrow> Some (Dir (AList.update x v es)))"
| "put n (x # y # p) v =
     (case n of
        File _ \<Rightarrow> None
      | Dir es \<Rightarrow>
          (case map_of es x of
             None \<Rightarrow> None
           | Some m \<Rightarrow>
               (case put m (y # p) v of
                  None \<Rightarrow> None
                | Some m' \<Rightarrow> Some (Dir (AList.update x m' es)))))"

fun remove :: "node \<Rightarrow> path \<Rightarrow> node option" where
  "remove n [] = None"
| "remove n [x] = (case n of File _ \<Rightarrow> None | Dir es \<Rightarrow> Some (Dir (AList.delete x es)))"
| "remove n (x # y # p) =
     (case n of
        File _ \<Rightarrow> None
      | Dir es \<Rightarrow>
          (case map_of es x of
             None \<Rightarrow> None
           | Some m \<Rightarrow>
               (case remove m (y # p) of
                  None \<Rightarrow> None
                | Some m' \<Rightarrow> Some (Dir (AList.update x m' es)))))"

text \<open>The error of a system call whose path has no parent directory.\<close>

definition no_parent_error :: "node \<Rightarrow> path \<Rightarrow> exn" where
  "no_parent_error fs p =
     (if list_ex (path_isfile fs) (prefixes (butlast p)) then NotADirectoryError
      else FileNotFoundError)"

text \<open>\<open>os.mkdir\<close>.\<close>

definition mkdir :: "node \<Rightarrow> path \<Rightarrow> exn + node" where
  "mkdir fs p =
     (if p = [] then Inl FileExistsError
      else if \<not> path_isdir fs (butlast p) then Inl (no_parent_error fs p)
      else if path_exists fs p then Inl FileExistsError
      else (case put fs p (Dir []) of None \<Rightarrow> Inl (no_parent_error fs p) | Some fs' \<Rightarrow> Inr fs'))"

text \<open>
  \<open>os.makedirs(name, exist_ok=True)\<close>: the parent is made first when it does not
  exist, a \<open>FileExistsError\<close> of that call is passed over, and an error of the
  final \<open>mkdir\<close> is passed over when the directory is there.
\<close>

function makedirs :: "node \<Rightarrow> path \<Rightarrow> exn + node" where
  "makedirs fs p =
     (case (if p \<noteq> [] \<and> butlast p \<noteq> [] \<and> \<not> path_exists fs (butlast p)
            then (case makedirs fs (butlast p) of
                    Inl e \<Rightarrow> if e = FileExistsError then Inr fs else Inl e
                  | Inr fs' \<Rightarrow> Inr fs')
            else Inr fs) of
        Inl e \<Rightarrow> Inl e
      | Inr fs1 \<Rightarrow>
          (case mkdir fs1 p of
             Inr fs2 \<Rightarrow> Inr fs2
           | Inl e \<Rightarrow> if path_isdir fs1 p then Inr fs1 else Inl e))"
  by pat_completeness auto
termination
  by (relation "measure (\<lambda>(fs, p). length p)") auto

declare makedirs.simps [simp del]

text \<open>\<open>shutil.rmtree\<close> of an existing path.\<close>

definition rmtree :: "node \<Rightarrow> path \<Rightarrow> exn + node" where
  "rmtree fs p =
     (case lookup fs p of
        None \<Rightarrow> Inl FileNotFoundError
      | Some (File _) \<Rightarrow> Inl NotADirectoryError
      | Some (Dir _) \<Rightarrow>
          (case remove fs p of None \<Rightarrow> Inl PermissionError | Some fs' \<Rightarrow> Inr fs'))"

text \<open>\<open>open(p, 'wb')\<close>: the file is created, or emptied when it exists.\<close>

definition open_write :: "node \<Rightarrow> path \<Rightarrow> exn + node" where
  "open_write fs p =
     (if p = [] \<or> path_isdir fs p then Inl IsADirectoryError
      else if \<not> path_isdir fs (butlast p) then Inl (no_parent_error fs p)
      else (case put fs p (File (Bytes [])) of
              None \<Rightarrow> Inl (no_parent_error fs p)
            | Some fs' \<Rightarrow> Inr fs'))"

text \<open>Writing the data of an open file.\<close>

definition write_data :: "node \<Rightarrow> path \<Rightarrow> filedata \<Rightarrow> node" where
  "write_data fs p d = (case put fs p (File d) of None \<Rightarrow> fs | Some fs' \<Rightarrow> fs')"

text \<open>
  What the environment does to the copy of a source file: the source cannot be
  read (nothing is written), or the copy breaks off after the destination was
  opened (an I/O error while writing, or the metadata cannot be set), which
  leaves the destination file behind.
\<close>

datatype fault = Read_denied | Write_interrupted

type_synonym env = "path \<Rightarrow> fault option"

text \<open>
  \<open>shutil.copy2(src, dst)\<close>: into \<open>dst\<close> when that is a directory, under the
  base name of \<open>src\<close>; \<open>copyfile\<close> opens the source, then the destination, and
  copies the data; \<open>copystat\<close> follows.  The result is the file system left
  behind and the exception raised, if any.
\<close>

definition copy2 :: "env \<Rightarrow> node \<Rightarrow> path \<Rightarrow> path \<Rightarrow> node \<times> exn option" where
  "copy2 env fs src dst =
     (let dst' = (if path_isdir fs dst \<and> src \<noteq> [] then dst @ [last src] else dst)
      in if path_exists fs src \<and> src = dst' then (fs, Some SameFileError)
         else (case lookup fs src of
                 None \<Rightarrow> (fs, Some FileNotFoundError)
               | Some (Dir _) \<Rightarrow> (fs, Some IsADirectoryError)
               | Some (File d) \<Rightarrow>
                   if env src = Some Read_denied then (fs, Some PermissionError)
                   else (case open_write fs dst' of
                           Inl e \<Rightarrow> (fs, Some e)
                         | Inr fs1 \<Rightarrow>
                             if env src = Some Write_interrupted then (fs1, Some IOError)
                             else (write_data fs1 dst' d, None))))"

section \<open>Printing\<close>

function show_nat :: "nat \<Rightarrow> string" where
  "show_nat n = (if n < 10 then [digit_char n] else show_nat (n div 10) @ [digit_char n])"
  by pat_completeness auto
termination
  by (relation "measure id") auto

declare show_nat.simps [simp del]

definition show_int :: "int \<Rightarrow> string" where
  "show_int i = (if i < 0 then CHR ''-'' # show_nat (nat (- i)) else show_nat (nat i))"

fun joinpath :: "path \<Rightarrow> string" where
  "joinpath [] = []"
| "joinpath [x] = x"
| "joinpath (x # y # p) = x @ ''/'' @ joinpath (y # p)"

text \<open>The text of an exception in a message, reduced to the name of its class.\<close>

fun exn_text :: "exn \<Rightarrow> string" where
  "exn_text FileNotFoundError = ''FileNotFoundError''"
| "exn_text NotADirectoryError = ''NotADirectoryError''"
| "exn_text IsADirectoryError = ''IsADirectoryError''"
| "exn_text FileExistsError = ''FileExistsError''"
| "exn_text PermissionError = ''PermissionError''"
| "exn_text IOError = ''OSError''"
| "exn_text SameFileError = ''SameFileError''"
| "exn_text EOFError = ''EOFError''"
| "exn_text ValueError = ''ValueError''"

definition quoted :: "string \<Rightarrow> string" where
  "quoted s = [CHR 0x27] @ s @ [CHR 0x27]"

section \<open>Staging\<close>

text \<open>
  The loop of \<open>copy_files_to_staging\<close> over the changed files, on the state it
  updates: the set \<open>staged_files\<close>, the file system and the lines printed.
  \<open>os.makedirs\<close> stands outside the \<open>try\<close>, so its exception leaves the
  function; an exception of \<open>shutil.copy2\<close> is caught and printed.
\<close>

type_synonym copy_state = "path set \<times> node \<times> string list"

fun copy_loop ::
    "env \<Rightarrow> path \<Rightarrow> path \<Rightarrow> path list \<Rightarrow> copy_state \<Rightarrow> exn + copy_state" where
  "copy_loop env repo_path staging_folder [] st = Inr st"
| "copy_loop env repo_path staging_folder (file_path # rest) (staged_files, fs, out) =
     (let src = repo_path @ file_path in
      if path_exists fs src then
        (let dest = staging_folder @ file_path;
             dest_dir = butlast dest
         in case (if \<not> path_exists fs dest_dir then makedirs fs dest_dir else Inr fs) of
              Inl e \<Rightarrow> Inl e
            | Inr fs1 \<Rightarrow>
                (case copy2 env fs1 src dest of
                   (fs2, None) \<Rightarrow>
                     copy_loop env repo_path staging_folder rest
                       (insert file_path staged_files, fs2, out)
                 | (fs2, Some e) \<Rightarrow>
                     copy_loop env repo_path staging_folder rest
                       (staged_files, fs2,
                        out @ [''Error copying '' @ joinpath file_path @ '': '' @ exn_text e])))
      else
        copy_loop env repo_path staging_folder rest
          (staged_files, fs,
           out @ [''Warning: File '' @ quoted (joinpath file_path)
                  @ '' does not exist in the working directory.'']))"

definition copy_files_to_staging ::
    "env \<Rightarrow> path list \<Rightarrow> path \<Rightarrow> path \<Rightarrow> node \<Rightarrow> exn + copy_state" where
  "copy_files_to_staging env changed_files repo_path staging_folder fs =
     copy_loop env repo_path staging_folder changed_files ({}, fs, [])"

section \<open>Manifest and archive\<close>

text \<open>
  \<open>list(staged_files)\<close> lists the set in an order Python leaves open; the model
  lists it in ascending order.
\<close>

definition create_manifest :: "path set \<Rightarrow> path \<Rightarrow> node \<Rightarrow> exn + (path \<times> node)" where
  "create_manifest staged_files staging_folder fs =
     (let manifest =
            JObject [(''changed_files'',
                      JArray (map (\<lambda>p. JString (joinpath p)) (sorted_list_of_set staged_files)))];
          manifest_path = staging_folder @ [''changes.json'']
      in case open_write fs manifest_path of
           Inl e \<Rightarrow> Inl e
         | Inr fs1 \<Rightarrow> Inr (manifest_path, write_data fs1 manifest_path (JsonText manifest)))"

text \<open>
  \<open>os.walk(top)\<close>, top down: for each directory its path, the names of its
  subdirectories and its other entries (name and data); nothing for a path
  that is no directory.
\<close>

fun walk_node :: "path \<Rightarrow> node \<Rightarrow> (path \<times> string list \<times> (string \<times> filedata) list) list" where
  "walk_node dirpath (File d) = []"
| "walk_node dirpath (Dir es) =
     (dirpath,
      concat (map (\<lambda>e. case snd e of Dir _ \<Rightarrow> [fst e] | File _ \<Rightarrow> []) es),
      concat (map (\<lambda>e. case snd e of Dir _ \<Rightarrow> [] | File d \<Rightarrow> [(fst e, d)]) es))
     # concat (map (\<lambda>e. case snd e of Dir _ \<Rightarrow> walk_node (dirpath @ [fst e]) (snd e) | File _ \<Rightarrow> []) es)"

definition walk :: "node \<Rightarrow> path \<Rightarrow> (path \<times> string list \<times> (string \<times> filedata) list) list" where
  "walk fs dirpath = (case lookup fs dirpath of None \<Rightarrow> [] | Some n \<Rightarrow> walk_node dirpath n)"

text \<open>\<open>os.path.relpath(p, start)\<close> on absolute paths.\<close>

definition relpath :: "path \<Rightarrow> path \<Rightarrow> path" where
  "relpath p start =
     (let i = length (longest_common_prefix start p);
          r = replicate (length start - i) ''..'' @ drop i p
      in if r = [] then [''.''] else r)"

text \<open>
  \<open>ZipFile.write(abs_path, arcname)\<close> reads the modification time of the file
  and opens the file before it writes anything for it: it raises \<open>ValueError\<close>
  for a modification time before 1980 (which \<open>copy2\<close> carries over from the
  source) and an \<open>OSError\<close> for a file it cannot open.  The tree of the model
  holds no times and no permissions, so an archiving environment tells, for
  the path of a file, the exception that \<open>ZipFile.write\<close> raises for it
  (\<open>None\<close>: the file is stored).
\<close>

type_synonym zip_env = "path \<Rightarrow> exn option"

text \<open>
  The two loops over the walk: each file found is written under its relative
  path; the first file that is refused ends the loops with its exception and
  the entries written before it.
\<close>

fun zip_write_all ::
    "zip_env \<Rightarrow> path \<Rightarrow> (path \<times> filedata) list \<Rightarrow> (path \<times> filedata) list
     \<Rightarrow> exn option \<times> (path \<times> filedata) list" where
  "zip_write_all zenv staging_folder [] namelist = (None, namelist)"
| "zip_write_all zenv staging_folder ((abs_path, d) # found) namelist =
     (case zenv abs_path of
        Some e \<Rightarrow> (Some e, namelist)
      | None \<Rightarrow>
          zip_write_all zenv staging_folder found
            (namelist @ [(relpath abs_path staging_folder, d)]))"

text \<open>
  \<open>zip_staging_folder\<close>: the archive file is opened first, every file the walk
  finds is written under its relative path, and leaving the \<open>with\<close> block
  closes the archive, which stores the entries written, also when an
  exception leaves the block.  When the function returns, the result is the
  list of entries, the file system and the line printed; when it raises, the
  result is the exception and the file system it leaves.
\<close>

definition zip_staging_folder ::
    "zip_env \<Rightarrow> path \<Rightarrow> path \<Rightarrow> node
     \<Rightarrow> (exn \<times> node) + ((path \<times> filedata) list \<times> node \<times> string list)" where
  "zip_staging_folder zenv staging_folder zip_filename fs =
     (case open_write fs zip_filename of
        Inl e \<Rightarrow> Inl (e, fs)
      | Inr fs1 \<Rightarrow>
          (let found =
                 concat (map (\<lambda>(root, dirs, files). map (\<lambda>(file, d). (root @ [file], d)) files)
                             (walk fs1 staging_folder))
           in case zip_write_all zenv staging_folder found [] of
                (Some e, entries) \<Rightarrow> Inl (e, write_data fs1 zip_filename (Zip entries))
              | (None, entries) \<Rightarrow>
                  Inr (entries, write_data fs1 zip_filename (Zip entries),
                       [''ZIP file '' @ quoted (joinpath zip_filename)
                        @ '' created successfully.''])))"

section \<open>The selection loop of main\<close>

record loop_state =
  disk :: node
  overall_changed_files :: "path set"
  selected_commit_indices :: "int list"
  stdout :: "string list"

definition say :: "string \<Rightarrow> loop_state \<Rightarrow> loop_state" where
  "say line st = st\<lparr>stdout := stdout st @ [line]\<rparr>"

text \<open>
  The \<open>while True\<close> loop of \<open>main\<close> over the lines the operator types.  When the
  lines run out, \<open>input\<close> raises \<open>EOFError\<close>.  \<open>None\<close> of \<open>py_int\<close> is the
  \<open>ValueError\<close> the loop catches; an exception of the staging copier is not a
  \<open>ValueError\<close> and leaves \<open>main\<close>.
\<close>

fun selection_loop ::
    "env \<Rightarrow> repo \<Rightarrow> path \<Rightarrow> path \<Rightarrow> commit list \<Rightarrow> string list \<Rightarrow> loop_state
     \<Rightarrow> exn + loop_state" where
  "selection_loop env rp repo_path staging_folder commits [] st = Inl EOFError"
| "selection_loop env rp repo_path staging_folder commits (line # lines) st =
     (let user_input = lower (strip line) in
      if user_input = ''e'' then Inr st
      else
        (case py_int user_input of
           None \<Rightarrow>
             selection_loop env rp repo_path staging_folder commits lines
               (say (''Invalid input. Please enter a valid number or '' @ quoted ''e'' @ ''.'') st)
         | Some index \<Rightarrow>
             if 0 \<le> index \<and> index < int (length commits) then
               (let st1 = st\<lparr>selected_commit_indices := selected_commit_indices st @ [index]\<rparr>;
                    commit = commits ! nat index;
                    st2 = say (''Processing commit '' @ take 7 (hexsha commit) @ '' (index ''
                               @ show_int index @ '')...'') st1
                in if parents commit = [] then
                     selection_loop env rp repo_path staging_folder commits lines
                       (say (''Commit '' @ take 7 (hexsha commit)
                             @ '' has no parent (initial commit), skipping.'') st2)
                   else
                     (let parent = hd (parents commit);
                          changed_files = diff_names rp parent (hexsha commit)
                      in if changed_files = [] then
                           selection_loop env rp repo_path staging_folder commits lines
                             (say (''No changed files in commit '' @ take 7 (hexsha commit) @ ''.'')
                                st2)
                         else
                           (case copy_files_to_staging env changed_files repo_path staging_folder
                                   (disk st2) of
                              Inl e \<Rightarrow> Inl e
                            | Inr (staged, fs', printed) \<Rightarrow>
                                selection_loop env rp repo_path staging_folder commits lines
                                  (say (''Staged '' @ show_nat (card staged)
                                        @ '' file(s) from commit '' @ take 7 (hexsha commit) @ ''.'')
                                     (st2\<lparr>disk := fs',
                                          overall_changed_files :=
                                            overall_changed_files st2 \<union> staged,
                                          stdout := stdout st2 @ printed\<rparr>)))))
             else
               selection_loop env rp repo_path staging_folder commits lines
                 (say ''Index out of range. Please enter a valid index.'' st)))"

text \<open>
  The rest of \<open>main\<close> from the preparation of the staging folder on: the folder
  is removed and made again, the loop runs, and when a file was staged the
  manifest and the archive are written.  The result is the file system, the
  entries of the archive (if it was written) and the lines printed.
\<close>

definition prepare_staging :: "node \<Rightarrow> path \<Rightarrow> exn + node" where
  "prepare_staging fs0 staging_folder =
     (case (if path_exists fs0 staging_folder then rmtree fs0 staging_folder else Inr fs0) of
        Inl e \<Rightarrow> Inl e
      | Inr fs1 \<Rightarrow> makedirs fs1 staging_folder)"

definition selected_lines :: "commit list \<Rightarrow> int list \<Rightarrow> string list" where
  "selected_lines commits idxs =
     map (\<lambda>idx. ''Index '' @ show_int idx @ '': '' @ take 7 (hexsha (commits ! nat idx))
                 @ '' - '' @ strip (message (commits ! nat idx)))
         (sort idxs)"

definition main_from_commits ::
    "env \<Rightarrow> zip_env \<Rightarrow> repo \<Rightarrow> path \<Rightarrow> commit list \<Rightarrow> string list \<Rightarrow> node
     \<Rightarrow> exn + (node \<times> (path \<times> filedata) list option \<times> string list)" where
  "main_from_commits env zenv rp repo_path commits lines fs0 =
     (let staging_folder = repo_path @ [''staging_folder''] in
      case prepare_staging fs0 staging_folder of
        Inl e \<Rightarrow> Inl e
      | Inr fs1 \<Rightarrow>
          (case selection_loop env rp repo_path staging_folder commits lines
                  \<lparr>disk = fs1, overall_changed_files = {}, selected_commit_indices = [],
                    stdout = []\<rparr> of
             Inl e \<Rightarrow> Inl e
           | Inr st \<Rightarrow>
               if overall_changed_files st = {} then
                 Inr (disk st, None,
                      stdout st @ [''No files were staged from the selected commits. Exiting.''])
               else
                 (case create_manifest (overall_changed_files st) staging_folder (disk st) of
                    Inl e \<Rightarrow> Inl e
                  | Inr (manifest_path, fs2) \<Rightarrow>
                      (case zip_staging_folder zenv staging_folder
                              (repo_path @ [''staged_commits.zip'']) fs2 of
                         Inl (e, fs3) \<Rightarrow> Inl e
                       | Inr (entries, fs3, printed) \<Rightarrow>
                           Inr (fs3, Some entries,
                                stdout st
                                @ [[], ''The following commits were selected and processed:'']
                                @ selected_lines commits (selected_commit_indices st)
                                @ printed
                                @ [''Required commits are successfully zipped.''])))))"

section \<open>Notions used in the statements\<close>

text \<open>
  What a path names: nothing (\<open>None\<close>), a directory (\<open>Some None\<close>) or a file with
  its data.
\<close>

definition ftype :: "node \<Rightarrow> path \<Rightarrow> filedata option option" where
  "ftype fs p =
     (case lookup fs p of
        None \<Rightarrow> None
      | Some (Dir _) \<Rightarrow> Some None
      | Some (File d) \<Rightarrow> Some (Some d))"

text \<open>
  In the file system \<open>fs\<close>, staging \<open>file_path\<close> succeeds: the source exists in
  the working tree, the destination directory is there or can be made, and
  \<open>copy2\<close> raises nothing.
\<close>

definition copied_ok :: "env \<Rightarrow> path \<Rightarrow> path \<Rightarrow> node \<Rightarrow> path \<Rightarrow> bool" where
  "copied_ok env repo_path staging_folder fs file_path =
     (path_exists fs (repo_path @ file_path)
      \<and> (case (if \<not> path_exists fs (butlast (staging_folder @ file_path))
               then makedirs fs (butlast (staging_folder @ file_path)) else Inr fs) of
            Inl e \<Rightarrow> False
          | Inr fs1 \<Rightarrow>
              snd (copy2 env fs1 (repo_path @ file_path) (staging_folder @ file_path)) = None))"

text \<open>
  A well-formed tree: no directory lists a name twice.
\<close>

fun wf_node :: "node \<Rightarrow> bool" where
  "wf_node (File d) = True"
| "wf_node (Dir es) = (distinct (map fst es) \<and> (\<forall>e \<in> set es. wf_node (snd e)))"

text \<open>The files a walk meets, each with its path and its data.\<close>

definition walk_files :: "path \<Rightarrow> node \<Rightarrow> (path \<times> filedata) list" where
  "walk_files dirpath n =
     concat (map (\<lambda>(root, dirs, files). map (\<lambda>(file, d). (root @ [file], d)) files)
                 (walk_node dirpath n))"

text \<open>
  The fields the parser accepts.  A day is written with two digits, or a day
  below ten with one digit, or with one digit after one space; a month with
  two digits, or a month below ten with one digit; a year with four digits.
\<close>

definition day_field :: "string \<Rightarrow> int \<Rightarrow> bool" where
  "day_field f d =
     (1 \<le> d \<and> d \<le> 31
      \<and> (f = pad2 d \<or> (d \<le> 9 \<and> (f = [digit_char (nat d)] \<or> f = [CHR '' '', digit_char (nat d)]))))"

definition month_field :: "string \<Rightarrow> int \<Rightarrow> bool" where
  "month_field f m = (1 \<le> m \<and> m \<le> 12 \<and> (f = pad2 m \<or> (m \<le> 9 \<and> f = [digit_char (nat m)])))"

definition year_field :: "string \<Rightarrow> int \<Rightarrow> bool" where
  "year_field f y = (0 \<le> y \<and> y \<le> 9999 \<and> f = pad4 y)"

text \<open>
  What a copy of \<open>src\<close> leaves at its destination (\<open>None\<close>: nothing is written),
  and whether it returns without an exception.
\<close>

definition copy_result :: "env \<Rightarrow> node \<Rightarrow> path \<Rightarrow> filedata option" where
  "copy_result env fs src =
     (case ftype fs src of
        Some (Some d) \<Rightarrow>
          (case env src of
             None \<Rightarrow> Some d
           | Some Read_denied \<Rightarrow> None
           | Some Write_interrupted \<Rightarrow> Some (Bytes []))
      | _ \<Rightarrow> None)"

definition copies :: "env \<Rightarrow> node \<Rightarrow> path \<Rightarrow> bool" where
  "copies env fs src = (path_isfile fs src \<and> env src = None)"

text \<open>
  The staging folder \<open>n\<close> of the working tree \<open>R\<close> mirrors the tree: it is a
  directory, its directories are directories of the tree, and each of its
  files is what a copy of the file of the tree leaves.
\<close>

definition staging_ok :: "env \<Rightarrow> node \<Rightarrow> path \<Rightarrow> string \<Rightarrow> bool" where
  "staging_ok env fs R n =
     (ftype fs (R @ [n]) = Some None
      \<and> (\<forall>q. ftype fs (R @ n # q) = Some None \<longrightarrow> ftype fs (R @ q) = Some None)
      \<and> (\<forall>q d. ftype fs (R @ n # q) = Some (Some d) \<longrightarrow> copy_result env fs (R @ q) = Some d))"

text \<open>
  The file system \<open>fs'\<close> extends \<open>fs\<close> inside \<open>S\<close>: what \<open>fs\<close> holds is unchanged,
  and nothing is new outside \<open>S\<close>.
\<close>

definition extends :: "node \<Rightarrow> node \<Rightarrow> path \<Rightarrow> bool" where
  "extends fs fs' S =
     ((\<forall>q. ftype fs q \<noteq> None \<longrightarrow> ftype fs' q = ftype fs q)
      \<and> (\<forall>q. \<not> prefix S q \<longrightarrow> ftype fs' q = ftype fs q))"

text \<open>
  The path \<open>p\<close> is settled: if its source exists, the destination directory is
  there and the destination holds what the copy leaves.
\<close>

definition settled :: "env \<Rightarrow> node \<Rightarrow> path \<Rightarrow> string \<Rightarrow> path \<Rightarrow> bool" where
  "settled env fs R n p =
     (ftype fs (R @ p) \<noteq> None \<longrightarrow>
        ftype fs (R @ n # butlast p) = Some None
        \<and> (\<forall>d. copy_result env fs (R @ p) = Some d \<longrightarrow> ftype fs (R @ n # p) = Some (Some d)))"

text \<open>
  The changed files the loop hands to the staging copier for a line: those of
  the commit with that index; none for a line that is no index in range and
  for a commit without parent.
\<close>

definition selected_changes :: "repo \<Rightarrow> commit list \<Rightarrow> string \<Rightarrow> path list" where
  "selected_changes rp commits line =
     (case py_int (lower (strip line)) of
        None \<Rightarrow> []
      | Some index \<Rightarrow>
          if 0 \<le> index \<and> index < int (length commits) \<and> parents (commits ! nat index) \<noteq> []
          then diff_names rp (hd (parents (commits ! nat index))) (hexsha (commits ! nat index))
          else [])"

text \<open>How a run of the loop ends: the exception, or the file system and the staged set.\<close>

definition outcome :: "exn + loop_state \<Rightarrow> exn + node \<times> path set" where
  "outcome r = map_sum id (\<lambda>st. (disk st, overall_changed_files st)) r"

text \<open>
  The changed files \<open>cf\<close> were staged before: each is settled, and those that
  can be copied are in the accumulated set.
\<close>

definition staged_before :: "env \<Rightarrow> path \<Rightarrow> string \<Rightarrow> path list \<Rightarrow> loop_state \<Rightarrow> bool" where
  "staged_before env R n cf st =
     ((\<forall>p \<in> set cf. settled env (disk st) R n p)
      \<and> {p \<in> set cf. copies env (disk st) (R @ p)} \<subseteq> overall_changed_files st)"

text \<open>
  The accumulated set lists the staging folder: it is finite, and a relative
  path is in it exactly when the staging folder holds a file there.
\<close>

definition staging_lists :: "path \<Rightarrow> string \<Rightarrow> loop_state \<Rightarrow> bool" where
  "staging_lists R n st =
     (finite (overall_changed_files st)
      \<and> (\<forall>q. q \<in> overall_changed_files st \<longleftrightarrow> path_isfile (disk st) (R @ n # q)))"

section \<open>A small repository\<close>

text \<open>
  The scenario of the specification: a repository at \<open>/repo\<close> with the commits
  C1 (root), C2 (changes \<open>a.txt\<close>) and C3 (changes \<open>a.txt\<close>, adds \<open>b/c.txt\<close>), listed
  newest first.
\<close>

definition demo_fs :: node where
  "demo_fs =
     Dir [(''repo'',
           Dir [(''a.txt'', File (Bytes ''A'')),
                (''b'', Dir [(''c.txt'', File (Bytes ''C''))]),
                (''z.txt'', File (Bytes ''Z''))])]"

definition demo_commits :: "commit list" where
  "demo_commits =
     [\<lparr>hexsha = ''c3c3c3c3'', committed_date = 30, message = ''three'', parents = [''c2c2c2c2'']\<rparr>,
      \<lparr>hexsha = ''c2c2c2c2'', committed_date = 20, message = ''two'', parents = [''c1c1c1c1'']\<rparr>,
      \<lparr>hexsha = ''c1c1c1c1'', committed_date = 10, message = ''one'', parents = []\<rparr>]"

definition demo_repo :: repo where
  "demo_repo =
     \<lparr>iter_commits = (\<lambda>branch since until. rev demo_commits),
      diff_names = (\<lambda>parent child.
        if child = ''c3c3c3c3'' then [[''a.txt''], [''b'', ''c.txt'']]
        else if child = ''c2c2c2c2'' then [[''a.txt'']] else [])\<rparr>"

text \<open>A backend that delivers two commits of one timestamp.\<close>

definition tie_commits :: "commit list" where
  "tie_commits =
     [\<lparr>hexsha = ''aaaaaaaa'', committed_date = 10, message = ''left'', parents = []\<rparr>,
      \<lparr>hexsha = ''bbbbbbbb'', committed_date = 10, message = ''right'', parents = []\<rparr>]"

definition tie_repo :: repo where
  "tie_repo = \<lparr>iter_commits = (\<lambda>branch since until. tie_commits), diff_names = (\<lambda>parent child. [])\<rparr>"

definition demo_state :: loop_state where
  "demo_state =
     \<lparr>disk = demo_fs, overall_changed_files = {}, selected_commit_indices = [], stdout = []\<rparr>"

definition no_faults :: env where
  "no_faults = (\<lambda>src. None)"

text \<open>
  A staging folder \<open>/stage\<close> in which a regular file \<open>d\<close> stands where the
  changed file \<open>d/e/f.txt\<close> needs a directory.
\<close>

definition blocked_fs :: node where
  "blocked_fs =
     Dir [(''repo'', Dir [(''d'', Dir [(''e'', Dir [(''f.txt'', File (Bytes ''F''))])]),
                          (''g.txt'', File (Bytes ''G''))]),
          (''stage'', Dir [(''d'', File (Bytes ''x''))])]"

text \<open>The repository after \<open>a.txt\<close> and \<open>b/c.txt\<close> were staged.\<close>

definition demo_staged_fs :: node where
  "demo_staged_fs =
     Dir [(''repo'',
           Dir [(''a.txt'', File (Bytes ''A'')),
                (''b'', Dir [(''c.txt'', File (Bytes ''C''))]),
                (''z.txt'', File (Bytes ''Z'')),
                (''staging_folder'',
                 Dir [(''a.txt'', File (Bytes ''A'')),
                      (''b'', Dir [(''c.txt'', File (Bytes ''C''))])])])]"

text \<open>
  Two archiving environments: one that refuses no file, and one in which the
  staged copy of \<open>b/c.txt\<close> has a modification time before 1980.
\<close>

definition no_refusals :: zip_env where
  "no_refusals = (\<lambda>abs_path. None)"

definition old_file_env :: zip_env where
  "old_file_env =
     (\<lambda>abs_path. if abs_path = [''repo'', ''staging_folder'', ''b'', ''c.txt'']
                  then Some ValueError else None)"

text \<open>What archiving leaves of the staged repository in that environment.\<close>

definition demo_partial_fs :: node where
  "demo_partial_fs =
     Dir [(''repo'',
           Dir [(''a.txt'', File (Bytes ''A'')),
                (''b'', Dir [(''c.txt'', File (Bytes ''C''))]),
                (''z.txt'', File (Bytes ''Z'')),
                (''staging_folder'',
                 Dir [(''a.txt'', File (Bytes ''A'')),
                      (''b'', Dir [(''c.txt'', File (Bytes ''C''))])]),
                (''staged_commits.zip'', File (Zip [([''a.txt''], Bytes ''A'')]))])]"

text \<open>
  The repository with the staging folder as \<open>main\<close> prepares it, and the state
  in which the selection loop starts.
\<close>

definition demo_ready_fs :: node where
  "demo_ready_fs =
     Dir [(''repo'',
           Dir [(''a.txt'', File (Bytes ''A'')),
                (''b'', Dir [(''c.txt'', File (Bytes ''C''))]),
                (''z.txt'', File (Bytes ''Z'')),
                (''staging_folder'', Dir [])])]"

definition demo_ready_state :: loop_state where
  "demo_ready_state =
     \<lparr>disk = demo_ready_fs, overall_changed_files = {}, selected_commit_indices = [],
      stdout = []\<rparr>"

text \<open>
  One commit with a parent.  In the first repository it changes \<open>z.txt\<close> and a
  file \<open>z.txt\<close> that the repository tracks under the name of the staging
  folder; in the second it changes \<open>a.txt\<close> and \<open>z.txt\<close>.
\<close>

definition one_commit :: "commit list" where
  "one_commit =
     [\<lparr>hexsha = ''d4d4d4d4'', committed_date = 40, message = ''four'', parents = [''c3c3c3c3'']\<rparr>]"

definition nested_repo :: repo where
  "nested_repo =
     \<lparr>iter_commits = (\<lambda>branch since until. one_commit),
      diff_names = (\<lambda>parent child. [[''staging_folder'', ''z.txt''], [''z.txt'']])\<rparr>"

definition pair_repo :: repo where
  "pair_repo =
     \<lparr>iter_commits = (\<lambda>branch since until. one_commit),
      diff_names = (\<lambda>parent child. [[''a.txt''], [''z.txt'']])\<rparr>"

text \<open>An environment in which the copy of \<open>z.txt\<close> breaks off after its destination was opened.\<close>

definition interrupt_env :: env where
  "interrupt_env = (\<lambda>src. if src = [''repo'', ''z.txt''] then Some Write_interrupted else None)"

section \<open>Facts about the file system\<close>

lemmas map_of_update = AList.update_conv'

lemma lookup_append:
  "lookup fs (p @ q) = (case lookup fs p of None \<Rightarrow> None | Some n \<Rightarrow> lookup n q)"
  by (induction p arbitrary: fs) (auto split: node.splits option.splits)

lemma put_Cons_Cons:
  "put n (x # y # p) v = Some n' \<longleftrightarrow>
     (\<exists>es m m'. n = Dir es \<and> map_of es x = Some m \<and> put m (y # p) v = Some m'
        \<and> n' = Dir (AList.update x m' es))"
  by (auto split: node.splits option.splits)

lemma put_single:
  "put n [x] v = Some n' \<longleftrightarrow> (\<exists>es. n = Dir es \<and> n' = Dir (AList.update x v es))"
  by (auto split: node.splits)

declare put.simps(2,3) [simp del]

lemma put_Some_iff:
  "(\<exists>fs'. put fs p v = Some fs') \<longleftrightarrow> p \<noteq> [] \<and> path_isdir fs (butlast p)"
proof (induction fs p v rule: put.induct)
  case (1 n v)
  then show ?case by simp
next
  case (2 n x v)
  then show ?case
    by (cases n) (simp_all add: path_isdir_def put_single)
next
  case (3 n x y p v)
  show ?case
  proof (cases n)
    case (File d)
    then show ?thesis by (simp add: path_isdir_def put_Cons_Cons)
  next
    case (Dir es)
    show ?thesis
    proof (cases "map_of es x")
      case None
      then show ?thesis using Dir by (simp add: path_isdir_def put_Cons_Cons)
    next
      case (Some m)
      have "(\<exists>fs'. put n (x # y # p) v = Some fs') \<longleftrightarrow> (\<exists>m'. put m (y # p) v = Some m')"
        using Dir Some by (auto simp: put_Cons_Cons)
      also have "\<dots> \<longleftrightarrow> path_isdir m (butlast (y # p))"
        using "3.IH"[OF Dir Some] by simp
      also have "\<dots> \<longleftrightarrow> path_isdir n (butlast (x # y # p))"
        using Dir Some by (simp add: path_isdir_def)
      finally show ?thesis by simp
    qed
  qed
qed

lemma lookup_put_below:
  "put fs p v = Some fs' \<Longrightarrow> lookup fs' (p @ q) = lookup v q"
proof (induction fs p v arbitrary: fs' rule: put.induct)
  case (1 n v)
  then show ?case by simp
next
  case (2 n x v)
  then show ?case
    by (auto simp: put_single map_of_update)
next
  case (3 n x y p v)
  from "3.prems" obtain es m m' where n: "n = Dir es" and m: "map_of es x = Some m"
    and pm: "put m (y # p) v = Some m'" and fs': "fs' = Dir (AList.update x m' es)"
    unfolding put_Cons_Cons by blast
  from "3.IH"[OF n m pm] have "lookup m' ((y # p) @ q) = lookup v q" .
  then show ?case
    by (simp add: fs' map_of_update)
qed

lemma lookup_put_other:
  "put fs p v = Some fs' \<Longrightarrow> \<not> prefix p q \<Longrightarrow> \<not> prefix q p \<Longrightarrow> lookup fs' q = lookup fs q"
proof (induction fs p v arbitrary: fs' q rule: put.induct)
  case (1 n v)
  then show ?case by simp
next
  case (2 n x v)
  then obtain z q' where q: "q = z # q'" and "z \<noteq> x"
    by (cases q) auto
  then show ?case
    using "2.prems"(1) by (auto simp: put_single map_of_update)
next
  case (3 n x y p v)
  from "3.prems"(1) obtain es m m' where n: "n = Dir es" and m: "map_of es x = Some m"
    and pm: "put m (y # p) v = Some m'" and fs': "fs' = Dir (AList.update x m' es)"
    unfolding put_Cons_Cons by blast
  from "3.prems"(3) obtain z q' where q: "q = z # q'"
    by (cases q) auto
  show ?case
  proof (cases "z = x")
    case True
    then have "\<not> prefix (y # p) q'" "\<not> prefix q' (y # p)"
      using "3.prems"(2,3) q by auto
    from "3.IH"[OF n m pm this] show ?thesis
      using True by (simp add: q fs' n m map_of_update)
  next
    case False
    then show ?thesis
      by (simp add: q fs' n map_of_update)
  qed
qed

lemma lookup_put_above:
  "put fs p v = Some fs' \<Longrightarrow> strict_prefix q p \<Longrightarrow>
   (\<exists>es. lookup fs q = Some (Dir es)) \<and> (\<exists>es. lookup fs' q = Some (Dir es))"
proof (induction fs p v arbitrary: fs' q rule: put.induct)
  case (1 n v)
  then show ?case by simp
next
  case (2 n x v)
  then have "q = []"
    by (cases q) auto
  then show ?case
    using "2.prems"(1) by (auto simp: put_single)
next
  case (3 n x y p v)
  from "3.prems"(1) obtain es m m' where n: "n = Dir es" and m: "map_of es x = Some m"
    and pm: "put m (y # p) v = Some m'" and fs': "fs' = Dir (AList.update x m' es)"
    unfolding put_Cons_Cons by blast
  show ?case
  proof (cases q)
    case Nil
    then show ?thesis by (simp add: n fs')
  next
    case (Cons z q')
    then have z: "z = x" and "strict_prefix q' (y # p)"
      using "3.prems"(2) by auto
    from "3.IH"[OF n m pm this(2)] show ?thesis
      by (simp add: Cons z fs' n m map_of_update)
  qed
qed

text \<open>
  What a path names: nothing, a directory, or a file with its data.
\<close>

lemma ftype_put:
  assumes "put fs p v = Some fs'"
  shows "ftype fs' q = (if prefix p q then ftype v (drop (length p) q) else ftype fs q)"
proof (cases "prefix p q")
  case True
  then obtain r where "q = p @ r"
    by (auto simp: prefix_def)
  then show ?thesis
    using lookup_put_below[OF assms, of r] by (simp add: ftype_def)
next
  case False
  show ?thesis
  proof (cases "prefix q p")
    case True
    then have "strict_prefix q p"
      using False by (auto simp: strict_prefix_def)
    from lookup_put_above[OF assms this] show ?thesis
      using False by (auto simp: ftype_def)
  next
    case nq: False
    from lookup_put_other[OF assms False nq] show ?thesis
      using False by (simp add: ftype_def)
  qed
qed

lemma put_put:
  "put fs p v = Some fs1 \<Longrightarrow> put fs1 p w = put fs p w"
proof (induction fs p v arbitrary: fs1 rule: put.induct)
  case (1 n v)
  then show ?case by simp
next
  case (2 n x v)
  then obtain es where "n = Dir es" "fs1 = Dir (AList.update x v es)"
    unfolding put_single by blast
  then show ?case
    by (simp add: put.simps(2))
next
  case (3 n x y p v)
  from "3.prems" obtain es m m' where n: "n = Dir es" and m: "map_of es x = Some m"
    and pm: "put m (y # p) v = Some m'" and fs1: "fs1 = Dir (AList.update x m' es)"
    unfolding put_Cons_Cons by blast
  have "put m' (y # p) w = put m (y # p) w"
    by (rule "3.IH"[OF n m pm])
  then show ?case
    unfolding fs1 n by (simp add: put.simps(3) map_of_update m split: option.splits)
qed

section \<open>Facts about strings\<close>

lemma is_space_simps [simp]:
  "is_space CHR '' ''" "\<not> is_space CHR ''e''" "\<not> is_space CHR ''E''"
  by (simp_all add: is_space_def)

lemma strip_padded:
  assumes "\<forall>c \<in> set ws1. is_space c" and "\<forall>c \<in> set ws2. is_space c" and "\<not> is_space c"
  shows "strip (ws1 @ [c] @ ws2) = [c]"
proof -
  have l: "lstrip (ws1 @ [c] @ ws2) = c # ws2"
    using assms(1,3) by (simp add: lstrip_def dropWhile_append2)
  have "dropWhile is_space (rev ws2 @ [c]) = dropWhile is_space [c]"
    by (rule dropWhile_append2) (use assms(2) in auto)
  then have "dropWhile is_space (rev ws2 @ [c]) = [c]"
    using assms(3) by simp
  then show ?thesis
    unfolding strip_def l rstrip_def by simp
qed

lemma lower_e [simp]: "lower ''e'' = ''e''" "lower ''E'' = ''e''"
  by code_simp+

lemma py_int_e [simp]: "py_int ''e'' = None"
  by (simp add: py_int_def strip_def lstrip_def rstrip_def is_digit_def)

section \<open>The commit range query\<close>

lemma py_sort_reverse_sorted:
  "sorted_wrt (\<lambda>a b. key b \<le> key a) (py_sort_reverse key xs)"
proof -
  have "sorted (map key (sort_key key (rev xs)))"
    by simp
  then have "sorted_wrt (\<lambda>a b. key a \<le> key b) (sort_key key (rev xs))"
    by (simp only: sorted_map)
  then show ?thesis
    by (simp add: py_sort_reverse_def sorted_wrt_rev)
qed

lemma py_sort_reverse_mset [simp]: "mset (py_sort_reverse key xs) = mset xs"
  by (simp add: py_sort_reverse_def)

lemma py_sort_reverse_stable:
  "filter (\<lambda>c. key c = t) (py_sort_reverse key xs) = filter (\<lambda>c. key c = t) xs"
proof -
  have "filter (\<lambda>c. key c = t) (sort_key key (rev xs)) = filter (\<lambda>c. key c = t) (rev xs)"
    by (rule sort_key_stable)
  then have "rev (filter (\<lambda>c. key c = t) (sort_key key (rev xs))) = filter (\<lambda>c. key c = t) xs"
    by (simp add: rev_filter)
  then show ?thesis
    by (simp add: py_sort_reverse_def rev_filter)
qed

text \<open>
  C4.  Whatever list the backend delivers, the list the commit range query
  returns is in descending order of commit timestamp, not strictly: every
  commit is at least as new as each commit after it.  When both dates parse
  and the start date is not after the end date, the returned list holds
  exactly the commits that \<open>iter_commits\<close> delivers for the branch between
  the two dates in the form year-month-day, each as often as delivered, and
  the commits of one timestamp stand in the order of delivery.
\<close>

theorem get_commits_between_dates_sorted:
  "sorted_wrt (\<lambda>x y. committed_date y \<le> committed_date x)
     (returned (get_commits_between_dates rp branch start_date_str end_date_str))
   \<and> (parse_date_input start_date_str = Some a \<and> parse_date_input end_date_str = Some b
        \<and> \<not> datetime_gt a b \<longrightarrow>
      mset (returned (get_commits_between_dates rp branch start_date_str end_date_str))
        = mset (iter_commits rp branch (strftime_ymd a) (strftime_ymd b))
      \<and> (\<forall>t. filter (\<lambda>c. committed_date c = t)
                 (returned (get_commits_between_dates rp branch start_date_str end_date_str))
               = filter (\<lambda>c. committed_date c = t)
                   (iter_commits rp branch (strftime_ymd a) (strftime_ymd b))))"
  by (simp add: get_commits_between_dates_def Let_def py_sort_reverse_sorted
      py_sort_reverse_stable split: option.split)

lemma parse_date_january:
  "parse_date_input ''01/01/2024'' = Some \<lparr>year = 2024, month = 1, day = 1\<rparr>"
  "parse_date_input ''31/01/2024'' = Some \<lparr>year = 2024, month = 1, day = 31\<rparr>"
  "\<not> datetime_gt \<lparr>year = 2024, month = 1, day = 1\<rparr> \<lparr>year = 2024, month = 1, day = 31\<rparr>"
  "strftime_ymd \<lparr>year = 2024, month = 1, day = 1\<rparr> = ''2024-01-01''"
  "strftime_ymd \<lparr>year = 2024, month = 1, day = 31\<rparr> = ''2024-01-31''"
  by code_simp+

theorem get_commits_between_dates_sorted_witness:
  "parse_date_input ''01/01/2024'' = Some \<lparr>year = 2024, month = 1, day = 1\<rparr>
   \<and> parse_date_input ''31/01/2024'' = Some \<lparr>year = 2024, month = 1, day = 31\<rparr>
   \<and> \<not> datetime_gt \<lparr>year = 2024, month = 1, day = 1\<rparr> \<lparr>year = 2024, month = 1, day = 31\<rparr>
   \<and> mset (returned (get_commits_between_dates demo_repo ''main'' ''01/01/2024'' ''31/01/2024''))
       = mset (iter_commits demo_repo ''main'' ''2024-01-01'' ''2024-01-31'')
   \<and> iter_commits demo_repo ''main'' ''2024-01-01'' ''2024-01-31'' = rev demo_commits"
  using get_commits_between_dates_sorted
      [where rp = demo_repo and branch = "''main''" and start_date_str = "''01/01/2024''"
         and end_date_str = "''31/01/2024''" and a = "\<lparr>year = 2024, month = 1, day = 1\<rparr>"
         and b = "\<lparr>year = 2024, month = 1, day = 31\<rparr>"]
  by (simp add: parse_date_january demo_repo_def)

text \<open>
  Two commits of one timestamp: the list returned for them is not in
  strictly descending order, whichever of the two comes first.
\<close>

theorem get_commits_between_dates_tie:
  "returned (get_commits_between_dates tie_repo ''main'' ''01/01/2024'' ''31/01/2024'')
     = tie_commits
   \<and> map committed_date tie_commits = [10, 10]
   \<and> \<not> sorted_wrt (\<lambda>x y. committed_date y < committed_date x)
         (returned (get_commits_between_dates tie_repo ''main'' ''01/01/2024'' ''31/01/2024''))"
  by code_simp

text \<open>
  C5.  When the start date does not parse, when the end date does not parse,
  and when both parse and the start date is later than the end date, the
  commit range query returns the empty list, prints one diagnostic line and
  asks the backend for no enumeration.  The query is a total function: it
  returns a value in each case.
\<close>

theorem get_commits_between_dates_rejects:
  "(parse_date_input start_date_str = None \<longrightarrow>
      get_commits_between_dates rp branch start_date_str end_date_str =
        \<lparr>returned = [], said = [''Invalid start date: '' @ start_date_str @ ''.''],
         enumerated = []\<rparr>)
   \<and> (parse_date_input start_date_str \<noteq> None \<and> parse_date_input end_date_str = None \<longrightarrow>
      get_commits_between_dates rp branch start_date_str end_date_str =
        \<lparr>returned = [], said = [''Invalid end date: '' @ end_date_str @ ''.''],
         enumerated = []\<rparr>)
   \<and> (parse_date_input start_date_str = Some a \<and> parse_date_input end_date_str = Some b
        \<and> datetime_gt a b \<longrightarrow>
      get_commits_between_dates rp branch start_date_str end_date_str =
        \<lparr>returned = [], said = [''Start date must be earlier than or equal to end date.''],
         enumerated = []\<rparr>)"
  by (auto simp: get_commits_between_dates_def)

lemma parse_date_examples:
  "parse_date_input ''02/01/2024'' = Some \<lparr>year = 2024, month = 1, day = 2\<rparr>"
  "parse_date_input ''01/01/2024'' = Some \<lparr>year = 2024, month = 1, day = 1\<rparr>"
  "parse_date_input ''2024-01-01'' = None"
  by code_simp+

theorem get_commits_between_dates_rejects_witness:
  "get_commits_between_dates demo_repo ''main'' ''2024-01-01'' ''01/01/2024'' =
     \<lparr>returned = [], said = [''Invalid start date: 2024-01-01.''], enumerated = []\<rparr>
   \<and> get_commits_between_dates demo_repo ''main'' ''01/01/2024'' ''2024-01-01'' =
     \<lparr>returned = [], said = [''Invalid end date: 2024-01-01.''], enumerated = []\<rparr>
   \<and> get_commits_between_dates demo_repo ''main'' ''02/01/2024'' ''01/01/2024'' =
     \<lparr>returned = [], said = [''Start date must be earlier than or equal to end date.''],
      enumerated = []\<rparr>"
  using get_commits_between_dates_rejects
      [where start_date_str = "''2024-01-01''" and end_date_str = "''01/01/2024''" and rp = demo_repo
         and branch = "''main''"]
    get_commits_between_dates_rejects
      [where start_date_str = "''01/01/2024''" and end_date_str = "''2024-01-01''" and rp = demo_repo
         and branch = "''main''"]
    get_commits_between_dates_rejects
      [where start_date_str = "''02/01/2024''" and end_date_str = "''01/01/2024''" and rp = demo_repo
         and branch = "''main''" and a = "\<lparr>year = 2024, month = 1, day = 2\<rparr>"
         and b = "\<lparr>year = 2024, month = 1, day = 1\<rparr>"]
  by (simp add: parse_date_examples datetime_gt_def)

section \<open>The selection loop\<close>

text \<open>
  C9.  A line that is the letter e or E between any whitespace ends the
  selection loop at once: the loop returns the state it had, so nothing is
  printed and the line is not taken for an invalid entry.
\<close>

theorem selection_loop_terminator:
  assumes "\<forall>c \<in> set ws1. is_space c" and "\<forall>c \<in> set ws2. is_space c"
    and "c = CHR ''e'' \<or> c = CHR ''E''"
  shows "selection_loop env rp repo_path staging_folder commits
           ((ws1 @ [c] @ ws2) # lines) st = Inr st"
proof -
  have "\<not> is_space c"
    using assms(3) by auto
  then have "strip (ws1 @ [c] @ ws2) = [c]"
    using assms(1,2) by (rule strip_padded[rotated 2])
  then have "lower (strip (ws1 @ [c] @ ws2)) = ''e''"
    using assms(3) by auto
  then show ?thesis
    by simp
qed

theorem selection_loop_terminator_witness:
  "selection_loop no_faults demo_repo [''repo''] [''repo'', ''staging_folder''] demo_commits
       ['' E '', ''0''] demo_state = Inr demo_state
   \<and> selection_loop no_faults demo_repo [''repo''] [''repo'', ''staging_folder''] demo_commits
       [''E''] demo_state = Inr demo_state"
  using selection_loop_terminator
      [where ?ws1.0 = "'' ''" and ?ws2.0 = "'' ''" and c = "CHR ''E''" and env = no_faults
         and rp = demo_repo and repo_path = "[''repo'']"
         and staging_folder = "[''repo'', ''staging_folder'']" and commits = demo_commits
         and lines = "[''0'']" and st = demo_state]
    selection_loop_terminator
      [where ?ws1.0 = "[]" and ?ws2.0 = "[]" and c = "CHR ''E''" and env = no_faults
         and rp = demo_repo and repo_path = "[''repo'']"
         and staging_folder = "[''repo'', ''staging_folder'']" and commits = demo_commits
         and lines = "[]" and st = demo_state]
  by simp

text \<open>
  C7.  When the line typed is the index of a commit without parents, the loop
  records the index, prints that it processes the commit and that it skips
  it, leaves the file system and the set of staged files as they were, and
  goes on with the next line.
\<close>

theorem selection_loop_root_commit:
  assumes "py_int (lower (strip line)) = Some index"
    and "0 \<le> index" and "index < int (length commits)"
    and "parents (commits ! nat index) = []"
  shows "\<exists>st'.
           selection_loop env rp repo_path staging_folder commits (line # lines) st
             = selection_loop env rp repo_path staging_folder commits lines st'
           \<and> disk st' = disk st
           \<and> overall_changed_files st' = overall_changed_files st
           \<and> selected_commit_indices st' = selected_commit_indices st @ [index]
           \<and> stdout st' = stdout st
               @ [''Processing commit '' @ take 7 (hexsha (commits ! nat index)) @ '' (index ''
                    @ show_int index @ '')...'',
                  ''Commit '' @ take 7 (hexsha (commits ! nat index))
                    @ '' has no parent (initial commit), skipping.'']"
proof -
  let ?c = "commits ! nat index"
  let ?st' = "st\<lparr>selected_commit_indices := selected_commit_indices st @ [index],
                stdout := stdout st
                  @ [''Processing commit '' @ take 7 (hexsha ?c) @ '' (index ''
                       @ show_int index @ '')...'',
                     ''Commit '' @ take 7 (hexsha ?c)
                       @ '' has no parent (initial commit), skipping.'']\<rparr>"
  have "lower (strip line) \<noteq> ''e''"
    using assms(1) by auto
  then have "selection_loop env rp repo_path staging_folder commits (line # lines) st
      = selection_loop env rp repo_path staging_folder commits lines ?st'"
    using assms by (simp add: Let_def say_def)
  then show ?thesis
    by (intro exI[of _ ?st']) simp
qed

theorem selection_loop_root_commit_witness:
  "\<exists>st'.
     selection_loop no_faults demo_repo [''repo''] [''repo'', ''staging_folder''] demo_commits
         ['' 2'', ''e''] demo_state
       = selection_loop no_faults demo_repo [''repo''] [''repo'', ''staging_folder''] demo_commits
           [''e''] st'
     \<and> disk st' = disk demo_state
     \<and> overall_changed_files st' = overall_changed_files demo_state
     \<and> selected_commit_indices st' = selected_commit_indices demo_state @ [2]
     \<and> stdout st' = stdout demo_state
         @ [''Processing commit c1c1c1c (index 2)...'',
            ''Commit c1c1c1c has no parent (initial commit), skipping.'']"
proof -
  have p: "py_int (lower (strip '' 2'')) = Some 2"
    by code_simp
  have s: "show_int 2 = ''2''"
    by code_simp
  show ?thesis
    using selection_loop_root_commit
      [where line = "'' 2''" and index = 2 and lines = "[''e'']" and st = demo_state
         and env = no_faults and rp = demo_repo and repo_path = "[''repo'']"
         and staging_folder = "[''repo'', ''staging_folder'']" and commits = demo_commits, OF p]
    by (simp add: s demo_commits_def)
qed

section \<open>The staging copier\<close>

lemma copy_loop_append:
  "copy_loop env rp sf (xs @ ys) st =
     (case copy_loop env rp sf xs st of
        Inl e \<Rightarrow> Inl e
      | Inr st' \<Rightarrow> copy_loop env rp sf ys st')"
proof (induction xs arbitrary: st)
  case Nil
  then show ?case by simp
next
  case (Cons x xs)
  obtain S fs out where st: "st = (S, fs, out)"
    by (cases st) auto
  show ?case
    unfolding st by (simp add: Cons.IH Let_def split: sum.splits prod.splits option.splits)
qed

lemma copy_loop_single:
  "copy_loop env rp sf [fp] (S, fs, out) = Inr (S', fs', out') \<Longrightarrow>
   S' = (if copied_ok env rp sf fs fp then insert fp S else S)"
  by (auto simp: copied_ok_def Let_def split: if_splits sum.splits prod.splits option.splits)

lemma snoc_eq_split:
  "zs @ [z] = xs @ fp # ys \<longleftrightarrow>
     (ys = [] \<and> xs = zs \<and> fp = z) \<or> (\<exists>ys'. ys = ys' @ [z] \<and> zs = xs @ fp # ys')"
  by (cases ys rule: rev_cases) auto

lemma copy_loop_staged:
  "copy_loop env rp sf cf (S0, fs, o0) = Inr (S, fs', o') \<Longrightarrow>
   S = S0 \<union> {fp. \<exists>xs ys S1 fs1 o1. cf = xs @ fp # ys
                   \<and> copy_loop env rp sf xs (S0, fs, o0) = Inr (S1, fs1, o1)
                   \<and> copied_ok env rp sf fs1 fp}"
proof (induction cf arbitrary: S fs' o' rule: rev_induct)
  case Nil
  then show ?case by simp
next
  case (snoc z zs)
  from snoc.prems obtain S1 fs1 o1 where
    zs: "copy_loop env rp sf zs (S0, fs, o0) = Inr (S1, fs1, o1)"
    and z: "copy_loop env rp sf [z] (S1, fs1, o1) = Inr (S, fs', o')"
    by (auto simp: copy_loop_append split: sum.splits)
  let ?P = "\<lambda>cf fp. \<exists>xs ys S1 fs1 o1. cf = xs @ fp # ys
                   \<and> copy_loop env rp sf xs (S0, fs, o0) = Inr (S1, fs1, o1)
                   \<and> copied_ok env rp sf fs1 fp"
  have S1: "S1 = S0 \<union> {fp. ?P zs fp}"
    by (rule snoc.IH[OF zs])
  have S: "S = (if copied_ok env rp sf fs1 z then insert z S1 else S1)"
    by (rule copy_loop_single[OF z])
  have P: "?P (zs @ [z]) fp \<longleftrightarrow> ?P zs fp \<or> (fp = z \<and> copied_ok env rp sf fs1 z)" for fp
  proof
    assume "?P (zs @ [z]) fp"
    then obtain xs ys S2 fs2 o2 where eq: "zs @ [z] = xs @ fp # ys"
      and run: "copy_loop env rp sf xs (S0, fs, o0) = Inr (S2, fs2, o2)"
      and ok: "copied_ok env rp sf fs2 fp"
      by blast
    from eq consider "ys = []" "xs = zs" "fp = z" | ys' where "ys = ys' @ [z]" "zs = xs @ fp # ys'"
      unfolding snoc_eq_split by blast
    then show "?P zs fp \<or> (fp = z \<and> copied_ok env rp sf fs1 z)"
    proof cases
      case 1
      then show ?thesis using run ok zs by simp
    next
      case 2
      then show ?thesis using run ok by blast
    qed
  next
    assume "?P zs fp \<or> (fp = z \<and> copied_ok env rp sf fs1 z)"
    then show "?P (zs @ [z]) fp"
    proof
      assume "?P zs fp"
      then obtain xs ys S2 fs2 o2 where "zs = xs @ fp # ys"
        and "copy_loop env rp sf xs (S0, fs, o0) = Inr (S2, fs2, o2)"
        and "copied_ok env rp sf fs2 fp"
        by blast
      then have "zs @ [z] = xs @ fp # (ys @ [z])
          \<and> copy_loop env rp sf xs (S0, fs, o0) = Inr (S2, fs2, o2)
          \<and> copied_ok env rp sf fs2 fp"
        by simp
      then show ?thesis by blast
    next
      assume "fp = z \<and> copied_ok env rp sf fs1 z"
      then have "zs @ [z] = zs @ fp # []
          \<and> copy_loop env rp sf zs (S0, fs, o0) = Inr (S1, fs1, o1)
          \<and> copied_ok env rp sf fs1 fp"
        using zs by simp
      then show ?thesis by blast
    qed
  qed
  show ?case
    unfolding S S1 using P by auto
qed


lemma demo_copy_run:
  "copy_files_to_staging no_faults [[''a.txt''], [''missing.txt'']] [''repo'']
       [''repo'', ''staging_folder''] demo_fs
     = Inr ({[''a.txt'']},
            Dir [(''repo'',
                  Dir [(''a.txt'', File (Bytes ''A'')),
                       (''b'', Dir [(''c.txt'', File (Bytes ''C''))]),
                       (''z.txt'', File (Bytes ''Z'')),
                       (''staging_folder'', Dir [(''a.txt'', File (Bytes ''A''))])])],
            [''Warning: File '' @ quoted ''missing.txt''
               @ '' does not exist in the working directory.''])"
  by code_simp


text \<open>
  C6.  The claim: a failure on one file is reported and never ends the batch.
  The copier does so for a file that is absent and for an exception of
  \<open>shutil.copy2\<close>, but \<open>os.makedirs\<close> stands outside the \<open>try\<close>: when the directory
  of the destination cannot be made, its exception leaves the function.  Here
  the staging folder holds a regular file \<open>d\<close>, the first changed file is
  \<open>d/e/f.txt\<close>, and the copier ends with \<open>NotADirectoryError\<close> without looking at
  \<open>g.txt\<close>, which exists and could be staged.
\<close>

theorem copy_files_to_staging_makedirs_aborts:
  "copy_files_to_staging no_faults [[''d'', ''e'', ''f.txt''], [''g.txt'']] [''repo''] [''stage'']
     blocked_fs = Inl NotADirectoryError"
  by code_simp

section \<open>The archiver\<close>

text \<open>What a walk meets at one entry of a directory.\<close>

lemma concat_map_concat:
  "concat (map F (concat (map G es))) = concat (map (\<lambda>e. concat (map F (G e))) es)"
  by (induction es) auto

lemma mset_concat_two:
  "mset (concat (map f es) @ concat (map g es)) = mset (concat (map (\<lambda>e. f e @ g e) es))"
  by (induction es) auto

lemma walk_files_File [simp]: "walk_files dirpath (File d) = []"
  by (simp add: walk_files_def)

lemma walk_files_Dir:
  "mset (walk_files dirpath (Dir es)) =
     mset (concat (map (\<lambda>e. case snd e of
                               File d \<Rightarrow> [(dirpath @ [fst e], d)]
                             | Dir _ \<Rightarrow> walk_files (dirpath @ [fst e]) (snd e)) es))"
proof -
  let ?F = "\<lambda>(root, dirs, files). map (\<lambda>(file, d). (root @ [file], d)) files"
  let ?a = "\<lambda>e. case snd e of File d \<Rightarrow> [(dirpath @ [fst e], d)] | Dir _ \<Rightarrow> []"
  let ?b = "\<lambda>e. case snd e of File d \<Rightarrow> [] | Dir _ \<Rightarrow> walk_files (dirpath @ [fst e]) (snd e)"
  have a: "map (\<lambda>(file, d). (dirpath @ [file], d))
             (concat (map (\<lambda>e. case snd e of Dir _ \<Rightarrow> [] | File d \<Rightarrow> [(fst e, d)]) es))
           = concat (map ?a es)"
    by (induction es) (auto split: node.splits)
  have b: "concat (map ?F (concat (map (\<lambda>e. case snd e of
               Dir _ \<Rightarrow> walk_node (dirpath @ [fst e]) (snd e) | File _ \<Rightarrow> []) es)))
           = concat (map ?b es)"
    unfolding concat_map_concat
    by (rule arg_cong[where f = concat], rule map_cong)
      (auto simp: walk_files_def split: node.splits)
  have "walk_files dirpath (Dir es)
      = concat (map ?a es)
        @ concat (map ?F (concat (map (\<lambda>e. case snd e of
               Dir _ \<Rightarrow> walk_node (dirpath @ [fst e]) (snd e) | File _ \<Rightarrow> []) es)))"
    by (subst walk_files_def) (simp add: a)
  then have "walk_files dirpath (Dir es) = concat (map ?a es) @ concat (map ?b es)"
    by (simp only: b)
  moreover have "(\<lambda>e. ?a e @ ?b e) =
      (\<lambda>e. case snd e of File d \<Rightarrow> [(dirpath @ [fst e], d)]
                        | Dir _ \<Rightarrow> walk_files (dirpath @ [fst e]) (snd e))"
    by (auto split: node.splits)
  ultimately show ?thesis
    by (simp only: mset_concat_two)
qed

lemma walk_files_set_Dir:
  "set (walk_files dirpath (Dir es)) =
     (\<Union>e \<in> set es. case snd e of
                       File d \<Rightarrow> {(dirpath @ [fst e], d)}
                     | Dir _ \<Rightarrow> set (walk_files (dirpath @ [fst e]) (snd e)))"
proof -
  have "set (walk_files dirpath (Dir es)) = set_mset (mset (walk_files dirpath (Dir es)))"
    by simp
  also have "\<dots> = (\<Union>e \<in> set es. set (case snd e of
                       File d \<Rightarrow> [(dirpath @ [fst e], d)]
                     | Dir _ \<Rightarrow> walk_files (dirpath @ [fst e]) (snd e)))"
    unfolding walk_files_Dir by simp
  also have "\<dots> = (\<Union>e \<in> set es. case snd e of
                       File d \<Rightarrow> {(dirpath @ [fst e], d)}
                     | Dir _ \<Rightarrow> set (walk_files (dirpath @ [fst e]) (snd e)))"
    by (rule SUP_cong) (auto split: node.splits)
  finally show ?thesis .
qed

lemma walk_files_below:
  "(p, d) \<in> set (walk_files dirpath n) \<Longrightarrow> \<exists>q. q \<noteq> [] \<and> p = dirpath @ q"
proof (induction dirpath n arbitrary: p d rule: walk_node.induct)
  case (1 dirpath d')
  then show ?case by simp
next
  case (2 dirpath es)
  from "2.prems" obtain e where e: "e \<in> set es"
    and m: "(p, d) \<in> (case snd e of File d \<Rightarrow> {(dirpath @ [fst e], d)}
                      | Dir _ \<Rightarrow> set (walk_files (dirpath @ [fst e]) (snd e)))"
    unfolding walk_files_set_Dir by blast
  show ?case
  proof (cases "snd e")
    case (File d')
    then show ?thesis using m by auto
  next
    case (Dir es')
    then have "(p, d) \<in> set (walk_files (dirpath @ [fst e]) (snd e))"
      using m by simp
    from "2.IH"[OF e Dir this] obtain q where "q \<noteq> []" "p = (dirpath @ [fst e]) @ q"
      by blast
    then have "fst e # q \<noteq> [] \<and> p = dirpath @ (fst e # q)"
      by simp
    then show ?thesis by blast
  qed
qed


lemma wf_lookup:
  "wf_node fs \<Longrightarrow> lookup fs p = Some n \<Longrightarrow> wf_node n"
proof (induction p arbitrary: fs)
  case Nil
  then show ?case by simp
next
  case (Cons x p)
  from Cons.prems(2) obtain es m where fs: "fs = Dir es" and m: "map_of es x = Some m"
    and l: "lookup m p = Some n"
    by (auto split: node.splits option.splits)
  from m have "(x, m) \<in> set es"
    by (rule map_of_SomeD)
  then have "wf_node m"
    using Cons.prems(1) fs by auto
  then show ?case
    using l by (rule Cons.IH)
qed

lemma walk_files_iff:
  "wf_node n \<Longrightarrow>
   (dirpath @ q, d) \<in> set (walk_files dirpath n) \<longleftrightarrow> q \<noteq> [] \<and> lookup n q = Some (File d)"
proof (induction dirpath n arbitrary: q d rule: walk_node.induct)
  case (1 dirpath d')
  then show ?case by (cases q) auto
next
  case (2 dirpath es)
  from "2.prems" have dist: "distinct (map fst es)" and wfs: "\<And>e. e \<in> set es \<Longrightarrow> wf_node (snd e)"
    by auto
  show ?case
  proof
    assume "(dirpath @ q, d) \<in> set (walk_files dirpath (Dir es))"
    then obtain e where e: "e \<in> set es"
      and m: "(dirpath @ q, d) \<in> (case snd e of File d \<Rightarrow> {(dirpath @ [fst e], d)}
                      | Dir _ \<Rightarrow> set (walk_files (dirpath @ [fst e]) (snd e)))"
      unfolding walk_files_set_Dir by blast
    from e dist have look: "map_of es (fst e) = Some (snd e)"
      by simp
    show "q \<noteq> [] \<and> lookup (Dir es) q = Some (File d)"
    proof (cases "snd e")
      case (File d')
      then have "q = [fst e]" "d' = d"
        using m by auto
      then show ?thesis
        using look File by simp
    next
      case (Dir es')
      then have in_sub: "(dirpath @ q, d) \<in> set (walk_files (dirpath @ [fst e]) (snd e))"
        using m by simp
      from walk_files_below[OF this] obtain q' where q': "q' \<noteq> []"
        and "dirpath @ q = (dirpath @ [fst e]) @ q'"
        by blast
      then have q: "q = fst e # q'"
        by simp
      have "((dirpath @ [fst e]) @ q', d) \<in> set (walk_files (dirpath @ [fst e]) (snd e))"
        using in_sub q by simp
      then have "lookup (snd e) q' = Some (File d)"
        using "2.IH"[OF e Dir wfs[OF e], of q' d] by simp
      then show ?thesis
        using look q by simp
    qed
  next
    assume "q \<noteq> [] \<and> lookup (Dir es) q = Some (File d)"
    then obtain x q' m where q: "q = x # q'" and look: "map_of es x = Some m"
      and l: "lookup m q' = Some (File d)"
      by (cases q) (auto split: option.splits)
    from look have e: "(x, m) \<in> set es"
      by (rule map_of_SomeD)
    have "(dirpath @ q, d) \<in> (case m of File d \<Rightarrow> {(dirpath @ [x], d)}
                      | Dir _ \<Rightarrow> set (walk_files (dirpath @ [x]) m))"
    proof (cases m)
      case (File d')
      then have "q' = []" "d' = d"
        using l by (cases q'; simp)+
      then show ?thesis
        using File q by simp
    next
      case (Dir es')
      then have "q' \<noteq> []"
        using l by auto
      then have "((dirpath @ [x]) @ q', d) \<in> set (walk_files (dirpath @ [x]) m)"
        using "2.IH"[OF e, of es' q' d] Dir wfs[OF e] l by simp
      then show ?thesis
        using Dir q by simp
    qed
    then have "\<exists>e \<in> set es. (dirpath @ q, d) \<in> (case snd e of
                        File d \<Rightarrow> {(dirpath @ [fst e], d)}
                      | Dir _ \<Rightarrow> set (walk_files (dirpath @ [fst e]) (snd e)))"
      using e by (intro bexI[of _ "(x, m)"]) (cases m; simp)+
    then show "(dirpath @ q, d) \<in> set (walk_files dirpath (Dir es))"
      unfolding walk_files_set_Dir by blast
  qed
qed

lemma distinct_concat_by_name:
  assumes "distinct (map fst es)"
    and "\<And>e. e \<in> set es \<Longrightarrow> distinct (map fst (f e))"
    and "\<And>e p d. e \<in> set es \<Longrightarrow> (p, d) \<in> set (f e) \<Longrightarrow> prefix (dirpath @ [fst e]) p"
  shows "distinct (map fst (concat (map f es)))"
  using assms
proof (induction es)
  case Nil
  then show ?case by simp
next
  case (Cons e es)
  have rest: "distinct (map fst (concat (map f es)))"
    using Cons.prems by (intro Cons.IH) auto
  have here: "distinct (map fst (f e))"
    using Cons.prems(2) by simp
  have "fst ` set (f e) \<inter> fst ` set (concat (map f es)) = {}"
  proof (rule ccontr)
    assume "fst ` set (f e) \<inter> fst ` set (concat (map f es)) \<noteq> {}"
    then obtain p d d' e' where "(p, d) \<in> set (f e)" and e': "e' \<in> set es"
      and "(p, d') \<in> set (f e')"
      by auto
    then have "prefix (dirpath @ [fst e]) p" "prefix (dirpath @ [fst e']) p"
      using Cons.prems(3) by auto
    then have "dirpath @ [fst e] = dirpath @ [fst e']"
      by (auto simp: prefix_def append_eq_append_conv)
    then have "fst e = fst e'"
      by simp
    then show False
      using Cons.prems(1) e' by auto
  qed
  then show ?case
    using rest here by simp
qed

lemma walk_files_distinct:
  "wf_node n \<Longrightarrow> distinct (map fst (walk_files dirpath n))"
proof (induction dirpath n rule: walk_node.induct)
  case (1 dirpath d)
  then show ?case by simp
next
  case (2 dirpath es)
  let ?f = "\<lambda>e. case snd e of File d \<Rightarrow> [(dirpath @ [fst e], d)]
                            | Dir _ \<Rightarrow> walk_files (dirpath @ [fst e]) (snd e)"
  have "distinct (map fst (concat (map ?f es)))"
  proof (rule distinct_concat_by_name[where dirpath = dirpath])
    show "distinct (map fst es)"
      using "2.prems" by simp
  next
    fix e assume e: "e \<in> set es"
    show "distinct (map fst (?f e))"
    proof (cases "snd e")
      case (File d)
      then show ?thesis by simp
    next
      case (Dir es')
      have "wf_node (snd e)"
        using "2.prems" e by auto
      from "2.IH"[OF e Dir this] show ?thesis
        using Dir by simp
    qed
  next
    fix e p d assume e: "e \<in> set es" and m: "(p, d) \<in> set (?f e)"
    show "prefix (dirpath @ [fst e]) p"
    proof (cases "snd e")
      case (File d')
      then show ?thesis using m by simp
    next
      case (Dir es')
      then have "(p, d) \<in> set (walk_files (dirpath @ [fst e]) (snd e))"
        using m by simp
      from walk_files_below[OF this] show ?thesis
        by auto
    qed
  qed
  moreover have "mset (map fst (walk_files dirpath (Dir es))) = mset (map fst (concat (map ?f es)))"
    unfolding mset_map by (simp only: walk_files_Dir)
  ultimately show ?case
    using mset_eq_imp_distinct_iff by blast
qed

lemma relpath_below:
  assumes "q \<noteq> []"
  shows "relpath (sf @ q) sf = q"
proof -
  have "longest_common_prefix sf (sf @ q) = sf"
    by (induction sf) simp_all
  then show ?thesis
    using assms by (simp add: relpath_def Let_def)
qed

lemma lookup_below_isdir:
  "lookup fs (p @ q) = Some n \<Longrightarrow> q \<noteq> [] \<Longrightarrow> path_isdir fs p"
  by (cases q) (auto simp: lookup_append path_isdir_def split: option.splits node.splits)

lemma open_write_Inr:
  "open_write fs p = Inr fs1 \<longleftrightarrow>
     p \<noteq> [] \<and> \<not> path_isdir fs p \<and> path_isdir fs (butlast p)
     \<and> put fs p (File (Bytes [])) = Some fs1"
  using put_Some_iff[of fs p "File (Bytes [])"]
  by (auto simp: open_write_def split: option.splits)

lemma zip_write_all_accepts:
  assumes "\<forall>e \<in> set found. zenv (fst e) = None"
  shows "zip_write_all zenv sf found namelist
         = (None, namelist @ map (\<lambda>(p, d). (relpath p sf, d)) found)"
  using assms by (induction found arbitrary: namelist) (auto simp: split_def)


lemma demo_staged_wf: "wf_node demo_staged_fs"
  by (simp add: demo_staged_fs_def)

lemma demo_staged_dirs:
  "path_isdir demo_staged_fs [''repo'', ''staging_folder'']"
  "path_isdir demo_staged_fs (butlast [''repo'', ''staged_commits.zip''])"
  "\<not> path_isdir demo_staged_fs [''repo'', ''staged_commits.zip'']"
  by (simp_all add: demo_staged_fs_def path_isdir_def)



section \<open>Date parsing\<close>

lemma digit_char_less:
  "n < 10 \<Longrightarrow> is_digit (digit_char n) \<and> digit_val (digit_char n) = n"
proof -
  assume "n < 10"
  then have "n \<in> {0, 1, 2, 3, 4, 5, 6, 7, 8, 9}"
    by auto
  then show ?thesis
    by (auto simp: digit_char_def is_digit_def digit_val_def)
qed

lemma digit_char_mod: "digit_char (n mod 10) = digit_char n"
  by (simp add: digit_char_def)

lemma is_digit_val:
  "is_digit c \<Longrightarrow> digit_val c < 10 \<and> digit_char (digit_val c) = c"
  by (auto simp: is_digit_def digit_val_def digit_char_def)

lemma is_digit_plain:
  "is_digit c \<Longrightarrow> \<not> is_space c \<and> c \<noteq> CHR ''_'' \<and> c \<noteq> CHR ''-'' \<and> c \<noteq> CHR ''+''
     \<and> c \<noteq> CHR ''/'' \<and> c \<noteq> CHR '' ''"
  by (auto simp: is_digit_def is_space_def)

lemma is_pos_digit_iff: "is_pos_digit c \<longleftrightarrow> is_digit c \<and> 1 \<le> digit_val c"
  by (auto simp: is_digit_def is_pos_digit_def digit_val_def)

lemma strip_plain:
  assumes "s \<noteq> []" and "\<not> is_space (hd s)" and "\<not> is_space (last s)"
  shows "strip s = s"
proof -
  have "lstrip s = s"
    using assms(1,2) by (cases s) (simp_all add: lstrip_def)
  moreover have "dropWhile is_space (rev s) = rev s"
    using assms(1,3) by (cases s rule: rev_cases) simp_all
  ultimately show ?thesis
    by (simp add: strip_def rstrip_def)
qed

lemma int_body_ok_digits:
  "s \<noteq> [] \<Longrightarrow> \<forall>c \<in> set s. is_digit c \<Longrightarrow> int_body_ok s"
  by (induction s rule: int_body_ok.induct) (auto dest: is_digit_plain)

lemma py_int_digits:
  assumes "s \<noteq> []" and "\<forall>c \<in> set s. is_digit c"
  shows "py_int s = Some (int (nat_of_digits s))"
proof -
  have "is_digit (hd s)" "is_digit (last s)"
    using assms by auto
  then have plain: "\<not> is_space (hd s)" "\<not> is_space (last s)"
    "hd s \<noteq> CHR ''-''" "hd s \<noteq> CHR ''+''"
    by (auto dest: is_digit_plain)
  have "strip s = s"
    using assms(1) plain(1,2) by (rule strip_plain)
  moreover have "filter is_digit s = s"
    using assms(2) by (simp add: filter_id_conv)
  ultimately show ?thesis
    using assms plain(3,4) by (simp add: py_int_def int_body_ok_digits)
qed

lemma py_int_space_digit:
  assumes "is_digit a"
  shows "py_int [CHR '' '', a] = Some (int (digit_val a))"
proof -
  have plain: "\<not> is_space a" "a \<noteq> CHR ''-''" "a \<noteq> CHR ''+''"
    using assms by (auto dest: is_digit_plain)
  then have "strip [CHR '' '', a] = [a]"
    by (simp add: strip_def lstrip_def rstrip_def)
  then show ?thesis
    using assms plain by (simp add: py_int_def Let_def nat_of_digits_def)
qed

lemma nat_of_digits_simps:
  "nat_of_digits [a] = digit_val a"
  "nat_of_digits [a, b] = 10 * digit_val a + digit_val b"
  "nat_of_digits [a, b, c, d] =
     1000 * digit_val a + 100 * digit_val b + 10 * digit_val c + digit_val d"
  by (simp_all add: nat_of_digits_def)

lemma digits4_value:
  "k = 10 * k1 + r0 \<Longrightarrow> k1 = 10 * k2 + r1 \<Longrightarrow> k2 = 10 * k3 + r2 \<Longrightarrow>
   1000 * k3 + 100 * r2 + 10 * r1 + r0 = (k :: nat)"
  by simp

lemma pad2_props:
  assumes "0 \<le> n" and "n \<le> 99"
  shows "py_int (pad2 n) = Some n" and "\<forall>c \<in> set (pad2 n). is_digit c"
proof -
  define k where "k = nat n"
  have "k < 10 * 10"
    using assms by (simp add: k_def)
  then have k: "k div 10 < 10"
    by (simp only: div_less_iff_less_mult zero_less_numeral)
  have m: "k mod 10 < 10"
    by simp
  have p: "pad2 n = [digit_char (k div 10), digit_char (k mod 10)]"
    by (simp add: pad2_def digit_char_mod k_def)
  show d: "\<forall>c \<in> set (pad2 n). is_digit c"
    using k m by (simp add: p digit_char_less)
  have "nat_of_digits (pad2 n) = 10 * (k div 10) + k mod 10"
    using k m by (simp only: p nat_of_digits_simps digit_char_less)
  then have "nat_of_digits (pad2 n) = k"
    by simp
  moreover have "pad2 n \<noteq> []"
    by (simp add: p)
  ultimately show "py_int (pad2 n) = Some n"
    using py_int_digits[OF _ d] assms(1) by (simp add: k_def)
qed

lemma pad4_props:
  assumes "0 \<le> n" and "n \<le> 9999"
  shows "py_int (pad4 n) = Some n" and "\<forall>c \<in> set (pad4 n). is_digit c"
proof -
  define k where "k = nat n"
  define k1 where "k1 = k div 10"
  define k2 where "k2 = k1 div 10"
  have "k < 10 * (10 * (10 * 10))"
    using assms by (simp add: k_def)
  then have "k1 < 10 * (10 * 10)"
    unfolding k1_def by (simp only: div_less_iff_less_mult zero_less_numeral mult.commute)
  then have "k2 < 10 * 10"
    unfolding k2_def by (simp only: div_less_iff_less_mult zero_less_numeral mult.commute)
  then have k3: "k2 div 10 < 10"
    by (simp only: div_less_iff_less_mult zero_less_numeral)
  have e1: "k = 10 * k1 + k mod 10" and e2: "k1 = 10 * k2 + k1 mod 10"
    and e3: "k2 = 10 * (k2 div 10) + k2 mod 10"
    by (simp_all add: k1_def k2_def)
  have d100: "k div 100 = k2" and d1000: "k div 1000 = k2 div 10"
    by (simp_all add: k1_def k2_def div_mult2_eq)
  have p: "pad4 n = [digit_char (k2 div 10), digit_char (k2 mod 10),
                     digit_char (k1 mod 10), digit_char (k mod 10)]"
    by (simp add: pad4_def digit_char_mod k_def[symmetric] d100 d1000 k1_def[symmetric])
  have m: "k2 mod 10 < 10" "k1 mod 10 < 10" "k mod 10 < 10"
    by simp_all
  show d: "\<forall>c \<in> set (pad4 n). is_digit c"
    using k3 m by (simp add: p digit_char_less)
  have "nat_of_digits (pad4 n)
      = 1000 * (k2 div 10) + 100 * (k2 mod 10) + 10 * (k1 mod 10) + k mod 10"
    using k3 m by (simp only: p nat_of_digits_simps digit_char_less)
  then have "nat_of_digits (pad4 n) = k"
    using digits4_value[OF e1 e2 e3] by simp
  moreover have "pad4 n \<noteq> []"
    by (simp add: p)
  ultimately show "py_int (pad4 n) = Some n"
    using py_int_digits[OF _ d] assms(1) by (simp add: k_def)
qed

lemma one_digit_props:
  assumes "0 \<le> n" and "n \<le> 9"
  shows "py_int [digit_char (nat n)] = Some n" and "is_digit (digit_char (nat n))"
    and "py_int [CHR '' '', digit_char (nat n)] = Some n"
proof -
  have k: "nat n < 10"
    using assms by auto
  show d: "is_digit (digit_char (nat n))"
    using k by (simp add: digit_char_less)
  show "py_int [digit_char (nat n)] = Some n"
    using py_int_digits[of "[digit_char (nat n)]"] d k assms(1)
    by (simp add: nat_of_digits_simps digit_char_less)
  show "py_int [CHR '' '', digit_char (nat n)] = Some n"
    using py_int_space_digit[OF d] k assms(1) by (simp add: digit_char_less)
qed

lemma day_field_int: "day_field D d \<Longrightarrow> py_int D = Some d"
  unfolding day_field_def using pad2_props(1)[of d] one_digit_props(1,3)[of d] by auto

lemma month_field_int: "month_field M m \<Longrightarrow> py_int M = Some m"
  unfolding month_field_def using pad2_props(1)[of m] one_digit_props(1)[of m] by auto

lemma year_field_int: "year_field Y y \<Longrightarrow> py_int Y = Some y"
  unfolding year_field_def using pad4_props(1)[of y] by auto

lemma digits_no_slash: "\<forall>c \<in> set D. is_digit c \<Longrightarrow> CHR ''/'' \<notin> set D"
  by (auto dest: is_digit_plain)

lemma day_field_shape:
  assumes "day_field D d"
  shows "CHR ''/'' \<notin> set D \<and> D \<noteq> []"
proof -
  from assms consider "D = pad2 d" "0 \<le> d" "d \<le> 99"
    | "D = [digit_char (nat d)]" "0 \<le> d" "d \<le> 9"
    | "D = [CHR '' '', digit_char (nat d)]" "0 \<le> d" "d \<le> 9"
    unfolding day_field_def by fastforce
  then show ?thesis
  proof cases
    case 1
    then show ?thesis
      using digits_no_slash[OF pad2_props(2)[of d]] by (simp add: pad2_def)
  next
    case 2
    then show ?thesis
      using digits_no_slash[of D] one_digit_props(2)[of d] by simp
  next
    case 3
    then show ?thesis
      using digits_no_slash[of "[digit_char (nat d)]"] one_digit_props(2)[of d] by simp
  qed
qed

lemma month_field_shape:
  assumes "month_field M m"
  shows "CHR ''/'' \<notin> set M \<and> M \<noteq> []"
proof -
  from assms consider "M = pad2 m" "0 \<le> m" "m \<le> 99"
    | "M = [digit_char (nat m)]" "0 \<le> m" "m \<le> 9"
    unfolding month_field_def by fastforce
  then show ?thesis
  proof cases
    case 1
    then show ?thesis
      using digits_no_slash[OF pad2_props(2)[of m]] by (simp add: pad2_def)
  next
    case 2
    then show ?thesis
      using digits_no_slash[of M] one_digit_props(2)[of m] by simp
  qed
qed

lemma year_field_shape: "year_field Y y \<Longrightarrow> length Y = 4"
  by (simp add: year_field_def pad4_def)

lemma alt1_iff: "(D, r) \<in> set (alt1 p s) \<longleftrightarrow> (\<exists>a. D = [a] \<and> s = a # r \<and> p a)"
  by (auto simp: alt1_def split: list.splits)

lemma alt2_iff:
  "(D, r) \<in> set (alt2 p q s) \<longleftrightarrow> (\<exists>a b. D = [a, b] \<and> s = a # b # r \<and> p a \<and> q b)"
  by (auto simp: alt2_def split: list.splits)

lemma re_Y_digits:
  "(Y, r) \<in> set (re_Y s) \<longleftrightarrow>
     (\<exists>a b c d. Y = [a, b, c, d] \<and> s = a # b # c # d # r
        \<and> is_digit a \<and> is_digit b \<and> is_digit c \<and> is_digit d)"
  by (auto simp: re_Y_def split: list.splits)

lemma lit_iff: "r' \<in> set (lit c s) \<longleftrightarrow> s = c # r'"
  by (auto simp: lit_def split: list.splits)

lemma div10_step: "r < 10 \<Longrightarrow> (10 * q + r) div 10 = q \<and> digit_char (10 * q + r) = digit_char (r :: nat)"
  by (simp add: digit_char_def)

lemma two_digit_field:
  assumes "is_digit a" and "is_digit b"
  shows "pad2 (int (10 * digit_val a + digit_val b)) = [a, b]"
proof -
  have v: "digit_val b < 10" "digit_char (digit_val a) = a" "digit_char (digit_val b) = b"
    using assms by (simp_all add: is_digit_val)
  define k where "k = 10 * digit_val a + digit_val b"
  have "k div 10 = digit_val a \<and> digit_char k = digit_char (digit_val b)"
    unfolding k_def by (rule div10_step[OF v(1)])
  then have "pad2 (int k) = [a, b]"
    by (simp add: pad2_def v)
  then show ?thesis
    unfolding k_def .
qed

lemma four_digit_field:
  assumes "is_digit a" and "is_digit b" and "is_digit c" and "is_digit d"
  shows "year_field [a, b, c, d] (int (nat_of_digits [a, b, c, d]))"
proof -
  let ?a = "digit_val a" and ?b = "digit_val b" and ?c = "digit_val c" and ?d = "digit_val d"
  have v: "?a < 10" "?b < 10" "?c < 10" "?d < 10"
    and c: "digit_char ?a = a" "digit_char ?b = b" "digit_char ?c = c" "digit_char ?d = d"
    using assms by (simp_all add: is_digit_val)
  define k2 where "k2 = 10 * ?a + ?b"
  define k1 where "k1 = 10 * k2 + ?c"
  define k where "k = 10 * k1 + ?d"
  have s1: "k div 10 = k1 \<and> digit_char k = digit_char ?d"
    unfolding k_def by (rule div10_step[OF v(4)])
  have s2: "k1 div 10 = k2 \<and> digit_char k1 = digit_char ?c"
    unfolding k1_def by (rule div10_step[OF v(3)])
  have s3: "k2 div 10 = ?a \<and> digit_char k2 = digit_char ?b"
    unfolding k2_def by (rule div10_step[OF v(2)])
  have "k div (10 * 10) = k div 10 div 10" "k div (10 * (10 * 10)) = k div 10 div (10 * 10)"
    "k1 div (10 * 10) = k1 div 10 div 10"
    by (rule div_mult2_eq)+
  then have d: "k div 100 = k2" "k div 1000 = ?a"
    using s1 s2 s3 by simp_all
  have n: "nat_of_digits [a, b, c, d] = k"
    by (simp add: nat_of_digits_simps k_def k1_def k2_def)
  have "k \<le> 9999"
    using v by (simp add: k_def k1_def k2_def)
  then show ?thesis
    using s1 s2 s3 by (simp add: year_field_def pad4_def n d c)
qed


lemma two_digit_day:
  assumes "is_digit a" and "is_digit b"
    and "1 \<le> 10 * digit_val a + digit_val b" and "10 * digit_val a + digit_val b \<le> 31"
  shows "day_field [a, b] (int (10 * digit_val a + digit_val b))"
  unfolding day_field_def two_digit_field[OF assms(1,2)] using assms(3,4) by simp

lemma two_digit_month:
  assumes "is_digit a" and "is_digit b"
    and "1 \<le> 10 * digit_val a + digit_val b" and "10 * digit_val a + digit_val b \<le> 12"
  shows "month_field [a, b] (int (10 * digit_val a + digit_val b))"
  unfolding month_field_def two_digit_field[OF assms(1,2)] using assms(3,4) by simp

lemma one_digit_day:
  assumes "is_pos_digit a"
  shows "day_field [a] (int (digit_val a))" and "day_field [CHR '' '', a] (int (digit_val a))"
    and "month_field [a] (int (digit_val a))"
  using assms is_digit_val[of a] by (simp_all add: is_pos_digit_iff day_field_def month_field_def)

lemma digit_val_simps:
  "digit_val CHR ''0'' = 0" "digit_val CHR ''1'' = 1" "digit_val CHR ''2'' = 2"
  "digit_val CHR ''3'' = 3"
  by (simp_all add: digit_val_def)

lemma is_digit_simps:
  "is_digit CHR ''0''" "is_digit CHR ''1''" "is_digit CHR ''2''" "is_digit CHR ''3''"
  by (simp_all add: is_digit_def)

lemma re_d_sound:
  assumes "(D, r) \<in> set (re_d s)"
  shows "s = D @ r \<and> (\<exists>d. day_field D d)"
proof -
  from assms consider
      a b where "D = [a, b]" "s = a # b # r" "a = CHR ''3''" "b = CHR ''0'' \<or> b = CHR ''1''"
    | a b where "D = [a, b]" "s = a # b # r" "a = CHR ''1'' \<or> a = CHR ''2''" "is_digit b"
    | a b where "D = [a, b]" "s = a # b # r" "a = CHR ''0''" "is_pos_digit b"
    | a where "D = [a]" "s = a # r" "is_pos_digit a"
    | a b where "D = [a, b]" "s = a # b # r" "a = CHR '' ''" "is_pos_digit b"
    unfolding re_d_def set_append Un_iff alt1_iff alt2_iff by auto
  then show ?thesis
  proof cases
    case 1
    then have "day_field D (int (10 * digit_val a + digit_val b))"
      using two_digit_day[of a b] by (auto simp: digit_val_simps is_digit_simps)
    then show ?thesis
      using 1 by auto
  next
    case 2
    then have "day_field D (int (10 * digit_val a + digit_val b))"
      using two_digit_day[of a b] is_digit_val[of b]
      by (auto simp: digit_val_simps is_digit_simps)
    then show ?thesis
      using 2 by auto
  next
    case 3
    then have "day_field D (int (10 * digit_val a + digit_val b))"
      using two_digit_day[of a b] is_digit_val[of b]
      by (auto simp: digit_val_simps is_digit_simps is_pos_digit_iff)
    then show ?thesis
      using 3 by auto
  next
    case 4
    then show ?thesis
      using one_digit_day(1)[of a] by auto
  next
    case 5
    then show ?thesis
      using one_digit_day(2)[of b] by auto
  qed
qed

lemma re_m_sound:
  assumes "(M, r) \<in> set (re_m s)"
  shows "s = M @ r \<and> (\<exists>m. month_field M m)"
proof -
  from assms consider
      a b where "M = [a, b]" "s = a # b # r" "a = CHR ''1''"
        "b = CHR ''0'' \<or> b = CHR ''1'' \<or> b = CHR ''2''"
    | a b where "M = [a, b]" "s = a # b # r" "a = CHR ''0''" "is_pos_digit b"
    | a where "M = [a]" "s = a # r" "is_pos_digit a"
    unfolding re_m_def set_append Un_iff alt1_iff alt2_iff by auto
  then show ?thesis
  proof cases
    case 1
    then have "month_field M (int (10 * digit_val a + digit_val b))"
      using two_digit_month[of a b] by (auto simp: digit_val_simps is_digit_simps)
    then show ?thesis
      using 1 by auto
  next
    case 2
    then have "month_field M (int (10 * digit_val a + digit_val b))"
      using two_digit_month[of a b] is_digit_val[of b]
      by (auto simp: digit_val_simps is_digit_simps is_pos_digit_iff)
    then show ?thesis
      using 2 by auto
  next
    case 3
    then show ?thesis
      using one_digit_day(3)[of a] by auto
  qed
qed

lemma re_Y_sound:
  assumes "(Y, r) \<in> set (re_Y s)"
  shows "s = Y @ r \<and> (\<exists>y. year_field Y y)"
proof -
  from assms obtain a b c d where
    "Y = [a, b, c, d]" "s = a # b # c # d # r" "is_digit a" "is_digit b" "is_digit c" "is_digit d"
    unfolding re_Y_digits by blast
  then show ?thesis
    using four_digit_field[of a b c d] by auto
qed

lemma re_d_complete_aux:
  "\<forall>d \<in> set [1..31]. (pad2 d, r) \<in> set (re_d (pad2 d @ r))"
  by (simp add: upto_rec1 pad2_def digit_char_def re_d_def alt1_def alt2_def is_digit_def is_pos_digit_def)

lemma re_d_complete_aux1:
  "\<forall>d \<in> set [1..9].
     ([digit_char (nat d)], r) \<in> set (re_d (digit_char (nat d) # r))
     \<and> ([CHR '' '', digit_char (nat d)], r) \<in> set (re_d (CHR '' '' # digit_char (nat d) # r))"
  by (simp add: upto_rec1 digit_char_def re_d_def alt1_def alt2_def is_digit_def is_pos_digit_def)

lemma re_d_complete:
  assumes "day_field D d"
  shows "(D, r) \<in> set (re_d (D @ r))"
proof -
  have r: "1 \<le> d" "d \<le> 31"
    using assms by (simp_all add: day_field_def)
  from assms consider "D = pad2 d"
    | "d \<le> 9" "D = [digit_char (nat d)] \<or> D = [CHR '' '', digit_char (nat d)]"
    unfolding day_field_def by blast
  then show ?thesis
  proof cases
    case 1
    then show ?thesis
      using re_d_complete_aux[of r] r by simp
  next
    case 2
    then have "d \<in> set [1..9]"
      using r by simp
    then show ?thesis
      using re_d_complete_aux1[of r] 2(2) by fastforce
  qed
qed

lemma re_m_complete_aux:
  "\<forall>m \<in> set [1..12]. (pad2 m, r) \<in> set (re_m (pad2 m @ r))"
  by (simp add: upto_rec1 pad2_def digit_char_def re_m_def alt1_def alt2_def is_digit_def is_pos_digit_def)

lemma re_m_complete_aux1:
  "\<forall>m \<in> set [1..9]. ([digit_char (nat m)], r) \<in> set (re_m (digit_char (nat m) # r))"
  by (simp add: upto_rec1 digit_char_def re_m_def alt1_def alt2_def is_digit_def is_pos_digit_def)

lemma re_m_complete:
  assumes "month_field M m"
  shows "(M, r) \<in> set (re_m (M @ r))"
proof -
  have r: "1 \<le> m" "m \<le> 12"
    using assms by (simp_all add: month_field_def)
  from assms consider "M = pad2 m" | "m \<le> 9" "M = [digit_char (nat m)]"
    unfolding month_field_def by blast
  then show ?thesis
  proof cases
    case 1
    have "m \<in> set [1..12]"
      using r by simp
    then show ?thesis
      using re_m_complete_aux[of r] 1 by blast
  next
    case 2
    then have "m \<in> set [1..9]"
      using r by simp
    then show ?thesis
      using re_m_complete_aux1[of r] 2(2) by fastforce
  qed
qed

lemma re_Y_complete:
  assumes "year_field Y y"
  shows "(Y, r) \<in> set (re_Y (Y @ r))"
proof -
  have "\<forall>c \<in> set (pad4 y). is_digit c" "Y = pad4 y"
    using assms pad4_props(2)[of y] by (simp_all add: year_field_def)
  then show ?thesis
    unfolding re_Y_digits by (simp add: pad4_def)
qed

lemma re_d_iff: "(D, r) \<in> set (re_d s) \<longleftrightarrow> s = D @ r \<and> (\<exists>d. day_field D d)"
  using re_d_sound re_d_complete by blast

lemma re_m_iff: "(M, r) \<in> set (re_m s) \<longleftrightarrow> s = M @ r \<and> (\<exists>m. month_field M m)"
  using re_m_sound re_m_complete by blast

lemma re_Y_iff: "(Y, r) \<in> set (re_Y s) \<longleftrightarrow> s = Y @ r \<and> (\<exists>y. year_field Y y)"
  using re_Y_sound re_Y_complete by blast

lemma format_regex_match_iff:
  "(D, M, Y, rest) \<in> set (format_regex_match s) \<longleftrightarrow>
     s = D @ ''/'' @ M @ ''/'' @ Y @ rest
     \<and> (\<exists>d. day_field D d) \<and> (\<exists>m. month_field M m) \<and> (\<exists>y. year_field Y y)"
proof -
  have "(D, M, Y, rest) \<in> set (format_regex_match s) \<longleftrightarrow>
      (\<exists>r1 r2 r3 r4. (D, r1) \<in> set (re_d s) \<and> r2 \<in> set (lit CHR ''/'' r1)
         \<and> (M, r3) \<in> set (re_m r2) \<and> r4 \<in> set (lit CHR ''/'' r3) \<and> (Y, rest) \<in> set (re_Y r4))"
    unfolding format_regex_match_def by fastforce
  then show ?thesis
    unfolding re_d_iff re_m_iff re_Y_iff lit_iff by auto
qed

lemma split_at_char_unique:
  assumes "c \<notin> set xs" and "c \<notin> set xs'" and "xs @ c # ys = xs' @ c # ys'"
  shows "xs = xs' \<and> ys = ys'"
  using assms
proof (induction xs arbitrary: xs')
  case Nil
  then show ?case
    by (cases xs') auto
next
  case (Cons a xs)
  then show ?case
    by (cases xs') auto
qed

lemma format_regex_match_unique:
  assumes "(D, M, Y, rest) \<in> set (format_regex_match s)"
    and "(D', M', Y', rest') \<in> set (format_regex_match s)"
  shows "D = D' \<and> M = M' \<and> Y = Y' \<and> rest = rest'"
proof -
  from assms(1) obtain d m y where
    s: "s = D @ CHR ''/'' # M @ CHR ''/'' # Y @ rest"
    and f: "day_field D d" "month_field M m" "year_field Y y"
    unfolding format_regex_match_iff by auto
  from assms(2) obtain d' m' y' where
    s': "s = D' @ CHR ''/'' # M' @ CHR ''/'' # Y' @ rest'"
    and f': "day_field D' d'" "month_field M' m'" "year_field Y' y'"
    unfolding format_regex_match_iff by auto
  have e: "D @ CHR ''/'' # M @ CHR ''/'' # Y @ rest = D' @ CHR ''/'' # M' @ CHR ''/'' # Y' @ rest'"
    using s s' by simp
  have 1: "D = D' \<and> M @ CHR ''/'' # Y @ rest = M' @ CHR ''/'' # Y' @ rest'"
    using day_field_shape[OF f(1)] day_field_shape[OF f'(1)] e
      split_at_char_unique[of "CHR ''/''" D D' "M @ CHR ''/'' # Y @ rest" "M' @ CHR ''/'' # Y' @ rest'"]
    by simp
  then have 2: "M = M' \<and> Y @ rest = Y' @ rest'"
    using month_field_shape[OF f(2)] month_field_shape[OF f'(2)]
      split_at_char_unique[of "CHR ''/''" M M' "Y @ rest" "Y' @ rest'"]
    by simp
  then have "Y = Y' \<and> rest = rest'"
    using year_field_shape[OF f(3)] year_field_shape[OF f'(3)] by simp
  then show ?thesis
    using 1 2 by simp
qed

lemma format_regex_match_first:
  assumes "(D, M, Y, rest) \<in> set (format_regex_match s)"
  shows "\<exists>xs. format_regex_match s = (D, M, Y, rest) # xs"
proof (cases "format_regex_match s")
  case Nil
  then show ?thesis
    using assms by simp
next
  case (Cons x xs)
  obtain D' M' Y' rest' where x: "x = (D', M', Y', rest')"
    by (cases x) auto
  then have "(D', M', Y', rest') \<in> set (format_regex_match s)"
    using Cons by simp
  then have "x = (D, M, Y, rest)"
    using format_regex_match_unique[OF assms] x by simp
  then show ?thesis
    using Cons by simp
qed

lemma strptime_dmy_fields:
  assumes "s = D @ ''/'' @ M @ ''/'' @ Y"
    and "day_field D d" and "month_field M m" and "year_field Y y"
  shows "strptime_dmy s = mk_datetime y m d"
proof -
  have "(D, M, Y, []) \<in> set (format_regex_match s)"
    unfolding format_regex_match_iff using assms by auto
  then obtain xs where "format_regex_match s = (D, M, Y, []) # xs"
    using format_regex_match_first by blast
  then show ?thesis
    using day_field_int[OF assms(2)] month_field_int[OF assms(3)] year_field_int[OF assms(4)]
    by (simp add: strptime_dmy_def)
qed

lemma strptime_dmy_Some:
  assumes "strptime_dmy s = Some dt"
  shows "\<exists>D M Y d m y. s = D @ ''/'' @ M @ ''/'' @ Y
           \<and> day_field D d \<and> month_field M m \<and> year_field Y y \<and> mk_datetime y m d = Some dt"
proof (cases "format_regex_match s")
  case Nil
  then show ?thesis
    using assms by (simp add: strptime_dmy_def)
next
  case (Cons x xs)
  obtain D M Y rest where x: "x = (D, M, Y, rest)"
    by (cases x) auto
  have r: "rest = []"
    using assms Cons x by (simp add: strptime_dmy_def split: if_splits)
  have "(D, M, Y, []) \<in> set (format_regex_match s)"
    using Cons x r by simp
  then obtain d m y where
    f: "s = D @ ''/'' @ M @ ''/'' @ Y" "day_field D d" "month_field M m" "year_field Y y"
    unfolding format_regex_match_iff by auto
  then have "mk_datetime y m d = Some dt"
    using strptime_dmy_fields[OF f] assms by simp
  then show ?thesis
    using f by blast
qed

lemma mk_datetime_Some:
  "mk_datetime y m d = Some dt \<longleftrightarrow>
     year dt = y \<and> month dt = m \<and> day dt = d
     \<and> 1 \<le> y \<and> y \<le> 9999 \<and> 1 \<le> m \<and> m \<le> 12 \<and> 1 \<le> d \<and> d \<le> days_in_month y m"
  by (cases dt) (auto simp: mk_datetime_def)

text \<open>
  C3.  Among the ASCII strings, date parsing returns a date exactly for the
  strings D/M/Y in which D writes the day with two ASCII digits, or a day
  below ten with one digit or with a space and one digit, M writes the month
  with two digits or a month below ten with one digit, Y writes the year
  with four digits, the year is not 0 and the month has that day; the date
  returned has that day, month and year.  For every other ASCII string it
  returns \<open>None\<close>.  Strings with characters outside ASCII are not covered:
  \<open>strptime\<close> takes the decimal digits of other scripts as well.
\<close>

theorem parse_date_input_accepts:
  "parse_date_input s = Some dt \<longleftrightarrow>
     (\<exists>D M Y. s = D @ ''/'' @ M @ ''/'' @ Y
        \<and> day_field D (day dt) \<and> month_field M (month dt) \<and> year_field Y (year dt)
        \<and> 1 \<le> year dt \<and> day dt \<le> days_in_month (year dt) (month dt))"
proof
  assume "parse_date_input s = Some dt"
  then obtain D M Y d m y where
    f: "s = D @ ''/'' @ M @ ''/'' @ Y" "day_field D d" "month_field M m" "year_field Y y"
      and k: "mk_datetime y m d = Some dt"
    using strptime_dmy_Some[of s dt] unfolding parse_date_input_def by blast
  show "\<exists>D M Y. s = D @ ''/'' @ M @ ''/'' @ Y
        \<and> day_field D (day dt) \<and> month_field M (month dt) \<and> year_field Y (year dt)
        \<and> 1 \<le> year dt \<and> day dt \<le> days_in_month (year dt) (month dt)"
    using f k unfolding mk_datetime_Some by blast
next
  assume "\<exists>D M Y. s = D @ ''/'' @ M @ ''/'' @ Y
        \<and> day_field D (day dt) \<and> month_field M (month dt) \<and> year_field Y (year dt)
        \<and> 1 \<le> year dt \<and> day dt \<le> days_in_month (year dt) (month dt)"
  then obtain D M Y where
    f: "s = D @ ''/'' @ M @ ''/'' @ Y" "day_field D (day dt)" "month_field M (month dt)"
      "year_field Y (year dt)"
    and k: "1 \<le> year dt" "day dt \<le> days_in_month (year dt) (month dt)"
    by blast
  have "mk_datetime (year dt) (month dt) (day dt) = Some dt"
    unfolding mk_datetime_Some using f(2-4) k
    by (simp add: day_field_def month_field_def year_field_def)
  then show "parse_date_input s = Some dt"
    unfolding parse_date_input_def strptime_dmy_fields[OF f] .
qed

theorem parse_date_input_accepts_witness:
  "parse_date_input ''05/03/2024'' = Some \<lparr>year = 2024, month = 3, day = 5\<rparr>
   \<and> parse_date_input ''5/3/2024'' = Some \<lparr>year = 2024, month = 3, day = 5\<rparr>
   \<and> parse_date_input ''29/02/2024'' = Some \<lparr>year = 2024, month = 2, day = 29\<rparr>"
proof -
  have a: "\<exists>D M Y. ''05/03/2024'' = D @ ''/'' @ M @ ''/'' @ Y
      \<and> day_field D 5 \<and> month_field M 3 \<and> year_field Y 2024
      \<and> (1 :: int) \<le> 2024 \<and> 5 \<le> days_in_month 2024 3"
    by (intro exI[of _ "''05''"] exI[of _ "''03''"] exI[of _ "''2024''"])
      (simp add: day_field_def month_field_def year_field_def pad2_def pad4_def digit_char_def
        days_in_month_def is_leap_def)
  have b: "\<exists>D M Y. ''5/3/2024'' = D @ ''/'' @ M @ ''/'' @ Y
      \<and> day_field D 5 \<and> month_field M 3 \<and> year_field Y 2024
      \<and> (1 :: int) \<le> 2024 \<and> 5 \<le> days_in_month 2024 3"
    by (intro exI[of _ "''5''"] exI[of _ "''3''"] exI[of _ "''2024''"])
      (simp add: day_field_def month_field_def year_field_def pad2_def pad4_def digit_char_def
        days_in_month_def is_leap_def)
  have c: "\<exists>D M Y. ''29/02/2024'' = D @ ''/'' @ M @ ''/'' @ Y
      \<and> day_field D 29 \<and> month_field M 2 \<and> year_field Y 2024
      \<and> (1 :: int) \<le> 2024 \<and> 29 \<le> days_in_month 2024 2"
    by (intro exI[of _ "''29''"] exI[of _ "''02''"] exI[of _ "''2024''"])
      (simp add: day_field_def month_field_def year_field_def pad2_def pad4_def digit_char_def
        days_in_month_def is_leap_def)
  show ?thesis
    using parse_date_input_accepts[of "''05/03/2024''" "\<lparr>year = 2024, month = 3, day = 5\<rparr>"]
      parse_date_input_accepts[of "''5/3/2024''" "\<lparr>year = 2024, month = 3, day = 5\<rparr>"]
      parse_date_input_accepts[of "''29/02/2024''" "\<lparr>year = 2024, month = 2, day = 29\<rparr>"]
      a b c
    by simp
qed

theorem parse_date_input_space_day:
  "\<not> list_all (\<lambda>c. is_digit c \<or> c = CHR ''/'') '' 1/03/2024''
   \<and> '' 1/03/2024'' \<noteq> strftime_dmy \<lparr>year = 2024, month = 3, day = 1\<rparr>
   \<and> parse_date_input '' 1/03/2024'' = Some \<lparr>year = 2024, month = 3, day = 1\<rparr>"
  by code_simp

section \<open>What the file system operations change\<close>

lemma path_exists_ftype: "path_exists fs p \<longleftrightarrow> ftype fs p \<noteq> None"
  by (simp add: path_exists_def ftype_def split: option.splits node.splits)

lemma path_isdir_ftype: "path_isdir fs p \<longleftrightarrow> ftype fs p = Some None"
  by (simp add: path_isdir_def ftype_def split: option.splits node.splits)

lemma path_isfile_ftype: "path_isfile fs p \<longleftrightarrow> (\<exists>d. ftype fs p = Some (Some d))"
  by (simp add: path_isfile_def ftype_def split: option.splits node.splits)

lemma lookup_File_ftype: "lookup fs p = Some (File d) \<longleftrightarrow> ftype fs p = Some (Some d)"
  by (simp add: ftype_def split: option.splits node.splits)

lemma ftype_leaf [simp]:
  "ftype (Dir []) r = (if r = [] then Some None else None)"
  "ftype (File d) r = (if r = [] then Some (Some d) else None)"
  by (cases r; simp add: ftype_def)+

lemma ftype_above:
  assumes "ftype fs (p @ q) \<noteq> None" and "q \<noteq> []"
  shows "ftype fs p = Some None"
proof -
  obtain x q' where q: "q = x # q'"
    using assms(2) by (cases q) auto
  show ?thesis
    using assms(1) unfolding q ftype_def lookup_append
    by (auto split: option.splits node.splits)
qed

lemma ftype_below: "ftype fs p = None \<Longrightarrow> ftype fs (p @ r) = None"
  unfolding ftype_def lookup_append by (auto split: option.splits node.splits)

lemma ftype_prefix:
  assumes "ftype fs q \<noteq> None" and "strict_prefix p q"
  shows "ftype fs p = Some None"
proof -
  from assms(2) obtain r where "q = p @ r" "r \<noteq> []"
    by (auto simp: strict_prefix_def prefix_def)
  then show ?thesis
    using assms(1) ftype_above[of fs p r] by simp
qed

lemma put_same:
  "lookup fs p = Some v \<Longrightarrow> p \<noteq> [] \<Longrightarrow> put fs p v = Some fs"
proof (induction fs p v rule: put.induct)
  case (1 n v)
  then show ?case by simp
next
  case (2 n x v)
  then obtain es where "n = Dir es" "map_of es x = Some v"
    by (cases n) (auto split: option.splits)
  then show ?case
    by (simp add: put_single AList.update_triv)
next
  case (3 n x y p v)
  from "3.prems" obtain es m where n: "n = Dir es" and m: "map_of es x = Some m"
    and l: "lookup m (y # p) = Some v"
    by (cases n) (auto split: option.splits)
  have "put m (y # p) v = Some m"
    using "3.IH"[OF n m l] by simp
  then show ?case
    unfolding put_Cons_Cons using n m by (simp add: AList.update_triv)
qed

lemma put_ok:
  assumes "p \<noteq> []" and "ftype fs (butlast p) = Some None"
  shows "\<exists>fs'. put fs p v = Some fs'"
  using put_Some_iff[of fs p v] assms by (simp add: path_isdir_ftype)

lemma mkdir_new:
  assumes "p \<noteq> []" and "ftype fs (butlast p) = Some None" and "ftype fs p = None"
  shows "\<exists>fs'. mkdir fs p = Inr fs'
           \<and> (\<forall>q. ftype fs' q = (if q = p then Some None else ftype fs q))"
proof -
  obtain fs' where put: "put fs p (Dir []) = Some fs'"
    using put_ok[OF assms(1,2)] by blast
  have "ftype fs' q = (if q = p then Some None else ftype fs q)" for q
  proof (cases "prefix p q")
    case True
    then obtain r where q: "q = p @ r"
      by (auto simp: prefix_def)
    have "ftype fs (p @ r) = None"
      using assms(3) by (rule ftype_below)
    then show ?thesis
      using ftype_put[OF put, of q] q by auto
  next
    case False
    then show ?thesis
      using ftype_put[OF put, of q] by auto
  qed
  moreover have "mkdir fs p = Inr fs'"
    using assms put by (simp add: mkdir_def path_isdir_ftype path_exists_ftype)
  ultimately show ?thesis
    by blast
qed

lemma makedirs_effect:
  assumes "ftype fs [] = Some None"
    and "\<forall>q. prefix q p \<longrightarrow> ftype fs q = None \<or> ftype fs q = Some None"
  shows "\<exists>fs'. makedirs fs p = Inr fs'
           \<and> (\<forall>q. ftype fs' q
                 = (if prefix q p \<and> ftype fs q = None then Some None else ftype fs q))"
  using assms
proof (induction p rule: rev_induct)
  case Nil
  have "makedirs fs [] = Inr fs"
    by (subst makedirs.simps) (simp add: mkdir_def path_isdir_ftype Nil(1))
  then show ?case
    using Nil(1) by auto
next
  case (snoc x p)
  let ?P = "p @ [x]"
  have pre: "\<forall>q. prefix q p \<longrightarrow> ftype fs q = None \<or> ftype fs q = Some None"
    using snoc.prems(2) by auto
  from snoc.IH[OF snoc.prems(1) pre] obtain f0 where f0: "makedirs fs p = Inr f0"
    and e0: "\<forall>q. ftype f0 q = (if prefix q p \<and> ftype fs q = None then Some None else ftype fs q)"
    by blast
  define fs1 where "fs1 = (if p \<noteq> [] \<and> \<not> path_exists fs p then f0 else fs)"
  have md: "makedirs fs ?P =
      (case mkdir fs1 ?P of
         Inr fs2 \<Rightarrow> Inr fs2
       | Inl e \<Rightarrow> if path_isdir fs1 ?P then Inr fs1 else Inl e)"
  proof (cases "p \<noteq> [] \<and> \<not> path_exists fs p")
    case True
    then have eq: "fs1 = f0"
      by (simp add: fs1_def)
    show ?thesis
      unfolding eq using True by (subst makedirs.simps) (simp add: f0)
  next
    case False
    then have eq: "fs1 = fs"
      by (auto simp: fs1_def)
    show ?thesis
      unfolding eq using False by (subst makedirs.simps) auto
  qed
  have e1: "ftype fs1 q = (if prefix q p \<and> ftype fs q = None then Some None else ftype fs q)"
    for q
  proof (cases "p \<noteq> [] \<and> \<not> path_exists fs p")
    case True
    then show ?thesis
      using e0 by (simp add: fs1_def)
  next
    case False
    have "ftype fs q \<noteq> None" if "prefix q p"
    proof (cases "p = []")
      case True
      then show ?thesis
        using that snoc.prems(1) by simp
    next
      case np: False
      then have ex: "ftype fs p \<noteq> None"
        using False by (simp add: path_exists_ftype)
      show ?thesis
      proof (cases "q = p")
        case True
        then show ?thesis using ex by simp
      next
        case False
        then have "strict_prefix q p"
          using that by (simp add: strict_prefix_def)
        then show ?thesis
          using ftype_prefix[OF ex] by simp
      qed
    qed
    then show ?thesis
      using False by (auto simp: fs1_def)
  qed
  have dir_p: "ftype fs1 p = Some None"
    using e1[of p] pre by auto
  show ?case
  proof (cases "ftype fs ?P = None")
    case True
    then have "ftype fs1 ?P = None"
      using e1[of ?P] by simp
    then obtain fs2 where m: "mkdir fs1 ?P = Inr fs2"
      and e2: "\<forall>q. ftype fs2 q = (if q = ?P then Some None else ftype fs1 q)"
      using mkdir_new[of ?P fs1] dir_p by auto
    have "makedirs fs ?P = Inr fs2"
      unfolding md m by simp
    moreover have "ftype fs2 q
        = (if prefix q ?P \<and> ftype fs q = None then Some None else ftype fs q)" for q
      using e1[of q] e2 True by auto
    ultimately show ?thesis
      by blast
  next
    case False
    then have d: "ftype fs ?P = Some None"
      using snoc.prems(2) by auto
    then have d1: "ftype fs1 ?P = Some None"
      using e1[of ?P] by simp
    have "mkdir fs1 ?P = Inl FileExistsError"
      using dir_p d1 by (simp add: mkdir_def path_isdir_ftype path_exists_ftype)
    then have "makedirs fs ?P = Inr fs1"
      unfolding md using d1 by (simp add: path_isdir_ftype)
    moreover have "ftype fs1 q
        = (if prefix q ?P \<and> ftype fs q = None then Some None else ftype fs q)" for q
      using e1[of q] d by auto
    ultimately show ?thesis
      by blast
  qed
qed

lemma ftype_below_file:
  assumes "ftype fs p \<noteq> Some None" and "r \<noteq> []"
  shows "ftype fs (p @ r) = None"
proof (rule ccontr)
  assume "ftype fs (p @ r) \<noteq> None"
  then have "ftype fs p = Some None"
    using assms(2) by (rule ftype_above)
  then show False
    using assms(1) by simp
qed

lemma put_file_effect:
  assumes "p \<noteq> []" and "ftype fs (butlast p) = Some None" and "ftype fs p \<noteq> Some None"
  shows "\<exists>fs'. put fs p (File d) = Some fs'
           \<and> (\<forall>q. ftype fs' q = (if q = p then Some (Some d) else ftype fs q))"
proof -
  obtain fs' where put: "put fs p (File d) = Some fs'"
    using put_ok[OF assms(1,2)] by blast
  have "ftype fs' q = (if q = p then Some (Some d) else ftype fs q)" for q
  proof (cases "prefix p q")
    case True
    then obtain r where q: "q = p @ r"
      by (auto simp: prefix_def)
    have "r \<noteq> [] \<Longrightarrow> ftype fs (p @ r) = None"
      using assms(3) by (rule ftype_below_file)
    then show ?thesis
      using ftype_put[OF put, of q] q by auto
  next
    case False
    then show ?thesis
      using ftype_put[OF put, of q] by auto
  qed
  then show ?thesis
    using put by blast
qed

lemma copy_result_cong:
  "ftype fs' src = ftype fs src \<Longrightarrow> copy_result env fs' src = copy_result env fs src"
  by (simp add: copy_result_def)

lemma copy2_dir:
  assumes "ftype fs src = Some None"
  shows "\<exists>e. copy2 env fs src dst = (fs, Some e)"
proof -
  obtain es where "lookup fs src = Some (Dir es)"
    using assms by (auto simp: ftype_def split: option.splits node.splits)
  then show ?thesis
    by (simp add: copy2_def Let_def)
qed

lemma copy2_file:
  assumes src: "ftype fs src = Some (Some d)"
    and dst: "dst \<noteq> []" "ftype fs (butlast dst) = Some None" "ftype fs dst \<noteq> Some None"
    and ne: "src \<noteq> dst"
  shows "\<exists>fs' e. copy2 env fs src dst = (fs', e) \<and> (e = None \<longleftrightarrow> env src = None)
           \<and> (\<forall>q. ftype fs' q
                 = (if q = dst \<and> copy_result env fs src \<noteq> None
                    then Some (copy_result env fs src) else ftype fs q))"
proof -
  have l: "lookup fs src = Some (File d)"
    using src by (simp add: lookup_File_ftype)
  have nd: "\<not> path_isdir fs dst" and pd: "path_isdir fs (butlast dst)"
    using dst by (simp_all add: path_isdir_ftype)
  obtain f1 where p1: "put fs dst (File (Bytes [])) = Some f1"
    and e1: "\<forall>q. ftype f1 q = (if q = dst then Some (Some (Bytes [])) else ftype fs q)"
    using put_file_effect[OF dst] by blast
  have ow: "open_write fs dst = Inr f1"
    using dst(1) nd pd p1 by (simp add: open_write_def)
  have b1: "butlast dst \<noteq> dst"
    using dst(1) by (metis butlast_snoc append_butlast_last_id length_append_singleton n_not_Suc_n length_butlast)
  have d1: "ftype f1 (butlast dst) = Some None" "ftype f1 dst \<noteq> Some None"
    using e1 dst(2) b1 by simp_all
  obtain f2 where p2: "put f1 dst (File d) = Some f2"
    and e2: "\<forall>q. ftype f2 q = (if q = dst then Some (Some d) else ftype f1 q)"
    using put_file_effect[OF dst(1) d1] by blast
  have wd: "write_data f1 dst d = f2"
    using p2 by (simp add: write_data_def)
  show ?thesis
  proof (cases "env src")
    case None
    then have "copy2 env fs src dst = (f2, None)"
      using l nd ne ow wd by (simp add: copy2_def Let_def)
    moreover have "copy_result env fs src = Some d"
      using None src by (simp add: copy_result_def)
    ultimately show ?thesis
      using None e1 e2 by simp
  next
    case (Some f)
    show ?thesis
    proof (cases f)
      case Read_denied
      then have "copy2 env fs src dst = (fs, Some PermissionError)"
        using Some l nd ne by (simp add: copy2_def Let_def)
      moreover have "copy_result env fs src = None"
        using Some Read_denied src by (simp add: copy_result_def)
      ultimately show ?thesis
        using Some by simp
    next
      case Write_interrupted
      then have "copy2 env fs src dst = (f1, Some IOError)"
        using Some l nd ne ow by (simp add: copy2_def Let_def)
      moreover have "copy_result env fs src = Some (Bytes [])"
        using Some Write_interrupted src by (simp add: copy_result_def)
      ultimately show ?thesis
        using Some e1 by simp
    qed
  qed
qed

lemma copy2_settled:
  assumes src: "ftype fs src = Some (Some d)"
    and dst: "dst \<noteq> []" "ftype fs (butlast dst) = Some None"
    and ne: "src \<noteq> dst"
    and same: "\<forall>x. copy_result env fs src = Some x \<longrightarrow> ftype fs dst = Some (Some x)"
    and nd: "ftype fs dst \<noteq> Some None"
  shows "\<exists>e. copy2 env fs src dst = (fs, e) \<and> (e = None \<longleftrightarrow> env src = None)"
proof -
  have l: "lookup fs src = Some (File d)"
    using src by (simp add: lookup_File_ftype)
  have nd': "\<not> path_isdir fs dst" and pd: "path_isdir fs (butlast dst)"
    using dst nd by (simp_all add: path_isdir_ftype)
  show ?thesis
  proof (cases "env src")
    case None
    then have "copy_result env fs src = Some d"
      using src by (simp add: copy_result_def)
    then have ld: "lookup fs dst = Some (File d)"
      using same by (simp add: lookup_File_ftype)
    obtain f1 where p1: "put fs dst (File (Bytes [])) = Some f1"
      using put_ok[OF dst] by blast
    then have ow: "open_write fs dst = Inr f1"
      using dst(1) nd' pd by (simp add: open_write_def)
    have "put f1 dst (File d) = Some fs"
      using put_put[OF p1, of "File d"] put_same[OF ld dst(1)] by simp
    then have "write_data f1 dst d = fs"
      by (simp add: write_data_def)
    then have "copy2 env fs src dst = (fs, None)"
      using None l nd' ne ow by (simp add: copy2_def Let_def)
    then show ?thesis
      using None by simp
  next
    case (Some f)
    show ?thesis
    proof (cases f)
      case Read_denied
      then have "copy2 env fs src dst = (fs, Some PermissionError)"
        using Some l nd' ne by (simp add: copy2_def Let_def)
      then show ?thesis
        using Some by simp
    next
      case Write_interrupted
      then have "copy_result env fs src = Some (Bytes [])"
        using Some src by (simp add: copy_result_def)
      then have ld: "lookup fs dst = Some (File (Bytes []))"
        using same by (simp add: lookup_File_ftype)
      have "put fs dst (File (Bytes [])) = Some fs"
        by (rule put_same[OF ld dst(1)])
      then have ow: "open_write fs dst = Inr fs"
        using dst(1) nd' pd by (simp add: open_write_def)
      then have "copy2 env fs src dst = (fs, Some IOError)"
        using Some Write_interrupted l nd' ne by (simp add: copy2_def Let_def)
      then show ?thesis
        using Some by simp
    qed
  qed
qed

section \<open>One round of the staging copier\<close>

lemma copy_result_file:
  "copy_result env fs src = Some d \<Longrightarrow> \<exists>d'. ftype fs src = Some (Some d')"
  by (auto simp: copy_result_def split: option.splits)

lemma staging_ok_root:
  assumes "staging_ok env fs R n"
  shows "ftype fs [] = Some None"
proof -
  have "ftype fs ([] @ (R @ [n])) \<noteq> None"
    using assms by (simp add: staging_ok_def)
  then show ?thesis
    by (rule ftype_above) simp
qed

lemma staging_ok_clear:
  assumes inv: "staging_ok env fs R n" and ex: "ftype fs (R @ p) \<noteq> None"
    and q: "prefix q (R @ n # butlast p)" and p: "p \<noteq> []"
  shows "ftype fs q = None \<or> ftype fs q = Some None"
proof -
  have "prefix q ((R @ [n]) @ butlast p)"
    using q by simp
  then consider "prefix q (R @ [n])" | r where "q = (R @ [n]) @ r" "prefix r (butlast p)"
    unfolding prefix_append by blast
  then show ?thesis
  proof cases
    case 1
    have d: "ftype fs (R @ [n]) = Some None"
      using inv by (simp add: staging_ok_def)
    show ?thesis
    proof (cases "q = R @ [n]")
      case True
      then show ?thesis using d by simp
    next
      case False
      then have "strict_prefix q (R @ [n])"
        using 1 by (simp add: strict_prefix_def)
      then show ?thesis
        using ftype_prefix[of fs "R @ [n]" q] d by simp
    qed
  next
    case 2
    from 2(2) obtain t where t: "butlast p = r @ t"
      by (auto simp: prefix_def)
    have "p = r @ (t @ [last p])"
      using p t by (metis append_butlast_last_id append_assoc)
    then have "R @ p = (R @ r) @ (t @ [last p])"
      by simp
    then have dir: "ftype fs (R @ r) = Some None"
      using ex ftype_above[of fs "R @ r" "t @ [last p]"] by simp
    show ?thesis
    proof (rule ccontr)
      assume "\<not> (ftype fs q = None \<or> ftype fs q = Some None)"
      then obtain d where "ftype fs (R @ n # r) = Some (Some d)"
        using 2(1) by (cases "ftype fs q") auto
      then have "copy_result env fs (R @ r) = Some d"
        using inv by (simp add: staging_ok_def)
      then show False
        using copy_result_file[of env fs "R @ r" d] dir by simp
    qed
  qed
qed

lemma dest_dir_ready:
  assumes inv: "staging_ok env fs R n" and ex: "ftype fs (R @ p) \<noteq> None" and p: "p \<noteq> []"
  shows "\<exists>f1. (if \<not> path_exists fs (R @ n # butlast p)
               then makedirs fs (R @ n # butlast p) else Inr fs) = Inr f1
           \<and> (\<forall>q. ftype f1 q
                 = (if prefix q (R @ n # butlast p) \<and> ftype fs q = None then Some None
                    else ftype fs q))"
proof (cases "path_exists fs (R @ n # butlast p)")
  case True
  then have e: "ftype fs (R @ n # butlast p) \<noteq> None"
    by (simp add: path_exists_ftype)
  have "ftype fs q \<noteq> None" if "prefix q (R @ n # butlast p)" for q
  proof (cases "q = R @ n # butlast p")
    case True
    then show ?thesis using e by simp
  next
    case False
    then have "strict_prefix q (R @ n # butlast p)"
      using that by (simp add: strict_prefix_def)
    then show ?thesis
      using ftype_prefix[OF e] by simp
  qed
  then show ?thesis
    using True by auto
next
  case False
  have "\<forall>q. prefix q (R @ n # butlast p) \<longrightarrow> ftype fs q = None \<or> ftype fs q = Some None"
    using staging_ok_clear[OF inv ex _ p] by blast
  from makedirs_effect[OF staging_ok_root[OF inv] this] show ?thesis
    using False by simp
qed

lemma copy_loop_one:
  "copy_loop env R S [p] (A, fs, out) =
     (if path_exists fs (R @ p) then
        (case (if \<not> path_exists fs (butlast (S @ p)) then makedirs fs (butlast (S @ p))
               else Inr fs) of
           Inl e \<Rightarrow> Inl e
         | Inr fs1 \<Rightarrow>
             (case copy2 env fs1 (R @ p) (S @ p) of
                (fs2, None) \<Rightarrow> Inr (insert p A, fs2, out)
              | (fs2, Some e) \<Rightarrow>
                  Inr (A, fs2, out @ [''Error copying '' @ joinpath p @ '': '' @ exn_text e])))
      else Inr (A, fs,
                out @ [''Warning: File '' @ quoted (joinpath p)
                       @ '' does not exist in the working directory.'']))"
  by (simp add: Let_def split: sum.splits prod.splits option.splits)

lemma stage_one:
  assumes inv: "staging_ok env fs R n" and p: "p \<noteq> []" "hd p \<noteq> n"
  shows "\<exists>fs' out'.
           copy_loop env R (R @ [n]) [p] (A, fs, out)
             = Inr ((if copies env fs (R @ p) then insert p A else A), fs', out')
           \<and> (\<forall>q. ftype fs' q
                 = (if ftype fs (R @ p) \<noteq> None \<and> prefix q (R @ n # butlast p) \<and> ftype fs q = None
                    then Some None
                    else if q = R @ n # p \<and> copy_result env fs (R @ p) \<noteq> None
                    then Some (copy_result env fs (R @ p))
                    else ftype fs q))"
proof (cases "ftype fs (R @ p)")
  case None
  then have "copy_loop env R (R @ [n]) [p] (A, fs, out)
      = Inr (A, fs, out @ [''Warning: File '' @ quoted (joinpath p)
                           @ '' does not exist in the working directory.''])"
    unfolding copy_loop_one by (simp add: path_exists_ftype)
  moreover have "\<not> copies env fs (R @ p)" "copy_result env fs (R @ p) = None"
    using None by (simp_all add: copies_def path_isfile_ftype copy_result_def)
  ultimately show ?thesis
    using None by simp
next
  case (Some k)
  then have ex: "ftype fs (R @ p) \<noteq> None"
    by simp
  have D: "butlast ((R @ [n]) @ p) = R @ n # butlast p"
    using p(1) by (simp add: butlast_append)
  obtain f1 where g: "(if \<not> path_exists fs (R @ n # butlast p)
               then makedirs fs (R @ n # butlast p) else Inr fs) = Inr f1"
    and e1: "\<forall>q. ftype f1 q
                 = (if prefix q (R @ n # butlast p) \<and> ftype fs q = None then Some None
                    else ftype fs q)"
    using dest_dir_ready[OF inv ex p(1)] by blast
  have cl: "copy_loop env R (R @ [n]) [p] (A, fs, out) =
      (case copy2 env f1 (R @ p) (R @ n # p) of
         (fs2, None) \<Rightarrow> Inr (insert p A, fs2, out)
       | (fs2, Some e) \<Rightarrow>
           Inr (A, fs2, out @ [''Error copying '' @ joinpath p @ '': '' @ exn_text e]))"
    unfolding copy_loop_one D g
    by (simp only: path_exists_ftype ex not_False_eq_True if_True sum.case append_assoc
        append_Cons append_Nil)
  have src1: "ftype f1 (R @ p) = ftype fs (R @ p)"
    using e1 ex by simp
  show ?thesis
  proof (cases k)
    case None
    then have dir: "ftype fs (R @ p) = Some None"
      using Some by simp
    then obtain e where "copy2 env f1 (R @ p) (R @ n # p) = (f1, Some e)"
      using copy2_dir[of f1 "R @ p" env "R @ n # p"] src1 by auto
    then have "copy_loop env R (R @ [n]) [p] (A, fs, out)
        = Inr (A, f1, out @ [''Error copying '' @ joinpath p @ '': '' @ exn_text e])"
      unfolding cl by simp
    moreover have "\<not> copies env fs (R @ p)" "copy_result env fs (R @ p) = None"
      using dir by (simp_all add: copies_def path_isfile_ftype copy_result_def)
    ultimately show ?thesis
      using e1 ex by simp
  next
    case (Some d)
    then have isf: "ftype fs (R @ p) = Some (Some d)"
      using \<open>ftype fs (R @ p) = Some k\<close> by simp
    have clear: "ftype fs (R @ n # butlast p) = None \<or> ftype fs (R @ n # butlast p) = Some None"
      using staging_ok_clear[OF inv ex _ p(1), of "R @ n # butlast p"] by simp
    have bl: "butlast (R @ n # p) = R @ n # butlast p"
      using D by simp
    have d1: "ftype f1 (butlast (R @ n # p)) = Some None"
      unfolding bl using e1 clear by auto
    have np: "\<not> prefix (R @ n # p) (R @ n # butlast p)"
    proof
      assume "prefix (R @ n # p) (R @ n # butlast p)"
      then have "length (R @ n # p) \<le> length (R @ n # butlast p)"
        by (rule prefix_length_le)
      moreover have "length (butlast p) < length p"
        using p(1) by (cases p rule: rev_cases) simp_all
      ultimately show False
        by (simp del: length_butlast)
    qed
    have nd: "ftype fs (R @ n # p) \<noteq> Some None"
      using inv isf by (auto simp: staging_ok_def)
    have d2: "ftype f1 (R @ n # p) \<noteq> Some None"
      using e1 np nd by simp
    have ne: "R @ p \<noteq> R @ n # p"
      by (auto dest!: arg_cong[where f = length])
    obtain f2 e where c: "copy2 env f1 (R @ p) (R @ n # p) = (f2, e)"
      and ee: "e = None \<longleftrightarrow> env (R @ p) = None"
      and e2: "\<forall>q. ftype f2 q
                 = (if q = R @ n # p \<and> copy_result env f1 (R @ p) \<noteq> None
                    then Some (copy_result env f1 (R @ p)) else ftype f1 q)"
      using copy2_file[of f1 "R @ p" d "R @ n # p" env] src1 isf d1 d2 ne by auto
    have cr: "copy_result env f1 (R @ p) = copy_result env fs (R @ p)"
      using src1 by (rule copy_result_cong)
    have cp: "copies env fs (R @ p) \<longleftrightarrow> e = None"
      using isf ee by (simp add: copies_def path_isfile_ftype)
    have "\<exists>out'. copy_loop env R (R @ [n]) [p] (A, fs, out)
        = Inr ((if copies env fs (R @ p) then insert p A else A), f2, out')"
      unfolding cl c cp by (cases e) simp_all
    moreover have "ftype f2 q
        = (if ftype fs (R @ p) \<noteq> None \<and> prefix q (R @ n # butlast p) \<and> ftype fs q = None
           then Some None
           else if q = R @ n # p \<and> copy_result env fs (R @ p) \<noteq> None
           then Some (copy_result env fs (R @ p))
           else ftype fs q)" for q
      using e1 e2 cr np ex by auto
    ultimately show ?thesis
      by blast
  qed
qed

section \<open>What staging keeps\<close>

lemma outside_staging:
  assumes "p \<noteq> []" and "hd p \<noteq> n"
  shows "\<not> prefix (R @ [n]) (R @ p)"
  using assms by (cases p) simp_all

lemma copies_cong: "ftype fs' src = ftype fs src \<Longrightarrow> copies env fs' src = copies env fs src"
  by (simp add: copies_def path_isfile_ftype)

lemma extends_refl: "extends fs fs S"
  by (simp add: extends_def)

lemma extends_trans:
  assumes "extends fs fs1 S" and "extends fs1 fs2 S"
  shows "extends fs fs2 S"
  using assms unfolding extends_def by metis

lemma extends_source:
  assumes "extends fs fs' (R @ [n])" and "p \<noteq> []" and "hd p \<noteq> n"
  shows "ftype fs' (R @ p) = ftype fs (R @ p)"
  using assms(1) outside_staging[OF assms(2,3), of R] by (simp add: extends_def)

lemma settled_extends:
  assumes s: "settled env fs R n p" and e: "extends fs fs' (R @ [n])"
    and p: "p \<noteq> []" "hd p \<noteq> n"
  shows "settled env fs' R n p"
proof -
  have src: "ftype fs' (R @ p) = ftype fs (R @ p)"
    by (rule extends_source[OF e p])
  have cr: "copy_result env fs' (R @ p) = copy_result env fs (R @ p)"
    using src by (rule copy_result_cong)
  have keep: "ftype fs q \<noteq> None \<Longrightarrow> ftype fs' q = ftype fs q" for q
    using e by (simp add: extends_def)
  show ?thesis
    unfolding settled_def src cr
  proof (intro impI conjI allI)
    assume ex: "ftype fs (R @ p) \<noteq> None"
    then have d: "ftype fs (R @ n # butlast p) = Some None"
      using s by (simp add: settled_def)
    then show "ftype fs' (R @ n # butlast p) = Some None"
      using keep[of "R @ n # butlast p"] by simp
  next
    fix d
    assume ex: "ftype fs (R @ p) \<noteq> None" and c: "copy_result env fs (R @ p) = Some d"
    then have "ftype fs (R @ n # p) = Some (Some d)"
      using s by (simp add: settled_def)
    then show "ftype fs' (R @ n # p) = Some (Some d)"
      using keep[of "R @ n # p"] by simp
  qed
qed

lemma strict_prefix_butlast:
  assumes "prefix q (butlast p)" and "p \<noteq> []"
  shows "strict_prefix q p"
proof -
  from assms(1) obtain t where "butlast p = q @ t"
    by (auto simp: prefix_def)
  then have "p = q @ (t @ [last p])"
    using assms(2) by (metis append_butlast_last_id append_assoc)
  then show ?thesis
    by (metis append_is_Nil_conv not_Cons_self2 prefixI prefix_order.less_le self_append_conv)
qed

lemma stage_one_keeps:
  assumes inv: "staging_ok env fs R n" and p: "p \<noteq> []" "hd p \<noteq> n"
    and eff: "\<forall>q. ftype fs' q
                 = (if ftype fs (R @ p) \<noteq> None \<and> prefix q (R @ n # butlast p) \<and> ftype fs q = None
                    then Some None
                    else if q = R @ n # p \<and> copy_result env fs (R @ p) \<noteq> None
                    then Some (copy_result env fs (R @ p))
                    else ftype fs q)"
  shows "extends fs fs' (R @ [n])" and "staging_ok env fs' R n" and "settled env fs' R n p"
    and "\<forall>q d. ftype fs' (R @ n # q) = Some (Some d) \<longrightarrow>
           ftype fs (R @ n # q) = Some (Some d) \<or> q = p"
proof -
  have S: "ftype fs (R @ [n]) = Some None"
    and mirror: "\<And>q. ftype fs (R @ n # q) = Some None \<Longrightarrow> ftype fs (R @ q) = Some None"
    and data: "\<And>q d. ftype fs (R @ n # q) = Some (Some d) \<Longrightarrow> copy_result env fs (R @ q) = Some d"
    using inv by (simp_all add: staging_ok_def)
  have keep: "ftype fs' q = ftype fs q" if "ftype fs q \<noteq> None" for q
  proof (cases "q = R @ n # p \<and> copy_result env fs (R @ p) \<noteq> None")
    case True
    then obtain d where c: "copy_result env fs (R @ p) = Some d"
      by auto
    then obtain d' where "ftype fs (R @ p) = Some (Some d')"
      using copy_result_file by blast
    then have nd: "ftype fs (R @ n # p) \<noteq> Some None"
      using mirror[of p] by auto
    have ne: "ftype fs (R @ n # p) \<noteq> None"
      using that True by simp
    obtain d2 where "ftype fs (R @ n # p) = Some (Some d2)"
      using ne nd by (cases "ftype fs (R @ n # p)") auto
    then have "ftype fs (R @ n # p) = Some (Some d)"
      using data[of p d2] c by simp
    then show ?thesis
      using eff True c that by simp
  next
    case False
    then show ?thesis
      using eff that by auto
  qed
  have out: "ftype fs' q = ftype fs q" if "\<not> prefix (R @ [n]) q" for q
  proof (cases "ftype fs q = None")
    case False
    then show ?thesis by (rule keep)
  next
    case True
    have "\<not> prefix q (R @ n # butlast p)"
    proof
      assume "prefix q (R @ n # butlast p)"
      then have "prefix q ((R @ [n]) @ butlast p)"
        by simp
      then consider "prefix q (R @ [n])" | r where "q = (R @ [n]) @ r"
        unfolding prefix_append by blast
      then show False
      proof cases
        case 1
        have "ftype fs q \<noteq> None"
        proof (cases "q = R @ [n]")
          case True
          then show ?thesis using S by simp
        next
          case False
          then have "strict_prefix q (R @ [n])"
            using 1 by (simp add: strict_prefix_def)
          then show ?thesis
            using ftype_prefix[of fs "R @ [n]" q] S by simp
        qed
        then show False
          using True by simp
      next
        case 2
        then show False
          using that by simp
      qed
    qed
    moreover have "q \<noteq> R @ n # p"
      using that by auto
    ultimately show ?thesis
      using eff by simp
  qed
  show ext: "extends fs fs' (R @ [n])"
    unfolding extends_def using keep out by blast
  have src: "ftype fs' (R @ p) = ftype fs (R @ p)"
    by (rule extends_source[OF ext p])
  have np: "\<not> prefix (R @ n # p) (R @ n # butlast p)"
  proof
    assume "prefix (R @ n # p) (R @ n # butlast p)"
    then have "length (R @ n # p) \<le> length (R @ n # butlast p)"
      by (rule prefix_length_le)
    moreover have "length (butlast p) < length p"
      using p(1) by (cases p rule: rev_cases) simp_all
    ultimately show False
      by (simp del: length_butlast)
  qed
  show "staging_ok env fs' R n"
    unfolding staging_ok_def
  proof (intro conjI allI impI)
    show "ftype fs' (R @ [n]) = Some None"
      using keep[of "R @ [n]"] S by simp
  next
    fix q
    assume a: "ftype fs' (R @ n # q) = Some None"
    show "ftype fs' (R @ q) = Some None"
    proof (cases "ftype fs (R @ n # q) = None")
      case False
      then have "ftype fs (R @ n # q) = Some None"
        using keep[of "R @ n # q"] a by simp
      then have "ftype fs (R @ q) = Some None"
        by (rule mirror)
      then show ?thesis
        using keep[of "R @ q"] by simp
    next
      case True
      then have ex: "ftype fs (R @ p) \<noteq> None" and pre: "prefix (R @ n # q) (R @ n # butlast p)"
        using eff a by (auto split: if_splits)
      then have "prefix q (butlast p)"
        by simp
      then have "strict_prefix q p"
        using p(1) by (rule strict_prefix_butlast)
      then have "strict_prefix (R @ q) (R @ p)"
        by (simp add: strict_prefix_def)
      then have "ftype fs (R @ q) = Some None"
        using ftype_prefix[OF ex] by simp
      then show ?thesis
        using keep[of "R @ q"] by simp
    qed
  next
    fix q d
    assume a: "ftype fs' (R @ n # q) = Some (Some d)"
    show "copy_result env fs' (R @ q) = Some d"
    proof (cases "ftype fs (R @ n # q) = None")
      case False
      then have "ftype fs (R @ n # q) = Some (Some d)"
        using keep[of "R @ n # q"] a by simp
      then have c: "copy_result env fs (R @ q) = Some d"
        by (rule data)
      then obtain d' where "ftype fs (R @ q) = Some (Some d')"
        using copy_result_file by blast
      then have "ftype fs' (R @ q) = ftype fs (R @ q)"
        using keep[of "R @ q"] by simp
      then show ?thesis
        using c copy_result_cong by metis
    next
      case True
      then have q: "q = p" and c: "copy_result env fs (R @ p) = Some d"
        using eff a by (auto split: if_splits)
      show ?thesis
        unfolding q using c copy_result_cong[OF src] by metis
    qed
  qed
  show "settled env fs' R n p"
    unfolding settled_def src copy_result_cong[OF src]
  proof (intro impI conjI allI)
    assume ex: "ftype fs (R @ p) \<noteq> None"
    have "ftype fs (R @ n # butlast p) = None \<or> ftype fs (R @ n # butlast p) = Some None"
      using staging_ok_clear[OF inv ex _ p(1), of "R @ n # butlast p"] by simp
    moreover have "R @ n # butlast p \<noteq> R @ n # p"
      using np by auto
    ultimately show "ftype fs' (R @ n # butlast p) = Some None"
      using eff ex by auto
  next
    fix d
    assume "ftype fs (R @ p) \<noteq> None" and "copy_result env fs (R @ p) = Some d"
    then show "ftype fs' (R @ n # p) = Some (Some d)"
      using eff np by simp
  qed
  show "\<forall>q d. ftype fs' (R @ n # q) = Some (Some d) \<longrightarrow>
           ftype fs (R @ n # q) = Some (Some d) \<or> q = p"
    using eff by (auto split: if_splits)
qed

lemma stage_one_settled:
  assumes inv: "staging_ok env fs R n" and p: "p \<noteq> []" "hd p \<noteq> n"
    and s: "settled env fs R n p"
  shows "\<exists>out'. copy_loop env R (R @ [n]) [p] (A, fs, out)
           = Inr ((if copies env fs (R @ p) then insert p A else A), fs, out')"
proof (cases "ftype fs (R @ p)")
  case None
  then have "copy_loop env R (R @ [n]) [p] (A, fs, out)
      = Inr (A, fs, out @ [''Warning: File '' @ quoted (joinpath p)
                           @ '' does not exist in the working directory.''])"
    unfolding copy_loop_one by (simp add: path_exists_ftype)
  moreover have "\<not> copies env fs (R @ p)"
    using None by (simp add: copies_def path_isfile_ftype)
  ultimately show ?thesis
    by simp
next
  case (Some k)
  then have ex: "ftype fs (R @ p) \<noteq> None"
    by simp
  have D: "butlast ((R @ [n]) @ p) = R @ n # butlast p"
    using p(1) by (simp add: butlast_append)
  have dir: "ftype fs (R @ n # butlast p) = Some None"
    and same: "\<forall>d. copy_result env fs (R @ p) = Some d \<longrightarrow> ftype fs (R @ n # p) = Some (Some d)"
    using s ex by (simp_all add: settled_def)
  have g: "(if \<not> path_exists fs (R @ n # butlast p)
            then makedirs fs (R @ n # butlast p) else Inr fs) = Inr fs"
    using dir by (simp add: path_exists_ftype)
  have cl: "copy_loop env R (R @ [n]) [p] (A, fs, out) =
      (case copy2 env fs (R @ p) (R @ n # p) of
         (fs2, None) \<Rightarrow> Inr (insert p A, fs2, out)
       | (fs2, Some e) \<Rightarrow>
           Inr (A, fs2, out @ [''Error copying '' @ joinpath p @ '': '' @ exn_text e]))"
    unfolding copy_loop_one D g
    by (simp only: path_exists_ftype ex not_False_eq_True if_True sum.case append_assoc
        append_Cons append_Nil)
  show ?thesis
  proof (cases k)
    case None
    then have isd: "ftype fs (R @ p) = Some None"
      using Some by simp
    then obtain e where "copy2 env fs (R @ p) (R @ n # p) = (fs, Some e)"
      using copy2_dir[of fs "R @ p" env "R @ n # p"] by auto
    then have "copy_loop env R (R @ [n]) [p] (A, fs, out)
        = Inr (A, fs, out @ [''Error copying '' @ joinpath p @ '': '' @ exn_text e])"
      unfolding cl by simp
    moreover have "\<not> copies env fs (R @ p)"
      using isd by (simp add: copies_def path_isfile_ftype)
    ultimately show ?thesis
      by simp
  next
    case (Some d)
    then have isf: "ftype fs (R @ p) = Some (Some d)"
      using \<open>ftype fs (R @ p) = Some k\<close> by simp
    have bl: "butlast (R @ n # p) = R @ n # butlast p"
      using D by simp
    have nd: "ftype fs (R @ n # p) \<noteq> Some None"
      using inv isf by (auto simp: staging_ok_def)
    have ne: "R @ p \<noteq> R @ n # p"
      by (auto dest!: arg_cong[where f = length])
    have d0: "R @ n # p \<noteq> []"
      by simp
    have d1: "ftype fs (butlast (R @ n # p)) = Some None"
      unfolding bl by (rule dir)
    have "\<exists>e. copy2 env fs (R @ p) (R @ n # p) = (fs, e) \<and> (e = None \<longleftrightarrow> env (R @ p) = None)"
      by (rule copy2_settled[OF isf d0 d1 ne same nd])
    then obtain e where c: "copy2 env fs (R @ p) (R @ n # p) = (fs, e)"
      and ee: "e = None \<longleftrightarrow> env (R @ p) = None"
      by (elim exE conjE) (rule that)
    show ?thesis
    proof (cases e)
      case None
      then have "env (R @ p) = None"
        using ee by simp
      then have "copies env fs (R @ p)"
        using isf by (simp add: copies_def path_isfile_ftype)
      moreover have "copy_loop env R (R @ [n]) [p] (A, fs, out) = Inr (insert p A, fs, out)"
        unfolding cl c None by simp
      ultimately show ?thesis
        by simp
    next
      case (Some x)
      then have "env (R @ p) \<noteq> None"
        using ee by simp
      then have "\<not> copies env fs (R @ p)"
        by (simp add: copies_def)
      moreover have "copy_loop env R (R @ [n]) [p] (A, fs, out)
          = Inr (A, fs, out @ [''Error copying '' @ joinpath p @ '': '' @ exn_text x])"
        unfolding cl c Some by simp
      ultimately show ?thesis
        by simp
    qed
  qed
qed

lemma copy_loop_Cons_append:
  "copy_loop env R S (p # cf) st =
     (case copy_loop env R S [p] st of
        Inl e \<Rightarrow> Inl e
      | Inr st' \<Rightarrow> copy_loop env R S cf st')"
  using copy_loop_append[of env R S "[p]" cf st] by (simp only: append_Cons append_Nil)

lemma copy_loop_effect:
  assumes "staging_ok env fs R n" and "\<forall>p \<in> set cf. p \<noteq> [] \<and> hd p \<noteq> n"
  shows "\<exists>fs' out'.
           copy_loop env R (R @ [n]) cf (A, fs, out)
             = Inr (A \<union> {p \<in> set cf. copies env fs (R @ p)}, fs', out')
           \<and> staging_ok env fs' R n \<and> extends fs fs' (R @ [n])
           \<and> (\<forall>p \<in> set cf. settled env fs' R n p)
           \<and> (\<forall>q d. ftype fs' (R @ n # q) = Some (Some d) \<longrightarrow>
                  ftype fs (R @ n # q) = Some (Some d) \<or> q \<in> set cf)
           \<and> ((\<forall>p \<in> set cf. settled env fs R n p) \<longrightarrow> fs' = fs)"
  using assms
proof (induction cf arbitrary: A fs out)
  case Nil
  then show ?case
    by (simp add: extends_refl)
next
  case (Cons p cf)
  have p: "p \<noteq> []" "hd p \<noteq> n" and ok: "\<forall>p \<in> set cf. p \<noteq> [] \<and> hd p \<noteq> n"
    using Cons.prems(2) by simp_all
  let ?A1 = "if copies env fs (R @ p) then insert p A else A"
  obtain fs1 out1 where
    one: "copy_loop env R (R @ [n]) [p] (A, fs, out) = Inr (?A1, fs1, out1)"
    and eff: "\<forall>q. ftype fs1 q
                 = (if ftype fs (R @ p) \<noteq> None \<and> prefix q (R @ n # butlast p) \<and> ftype fs q = None
                    then Some None
                    else if q = R @ n # p \<and> copy_result env fs (R @ p) \<noteq> None
                    then Some (copy_result env fs (R @ p))
                    else ftype fs q)"
    using stage_one[OF Cons.prems(1) p, of A out] by blast
  note k = stage_one_keeps[OF Cons.prems(1) p eff]
  obtain fs' out' where
    rest: "copy_loop env R (R @ [n]) cf (?A1, fs1, out1)
             = Inr (?A1 \<union> {p \<in> set cf. copies env fs1 (R @ p)}, fs', out')"
    and inv': "staging_ok env fs' R n" and ext': "extends fs1 fs' (R @ [n])"
    and set': "\<forall>p \<in> set cf. settled env fs' R n p"
    and new': "\<forall>q d. ftype fs' (R @ n # q) = Some (Some d) \<longrightarrow>
                  ftype fs1 (R @ n # q) = Some (Some d) \<or> q \<in> set cf"
    and same': "(\<forall>p \<in> set cf. settled env fs1 R n p) \<longrightarrow> fs' = fs1"
    using Cons.IH[OF k(2) ok, of ?A1 out1] by blast
  have cp: "copies env fs1 (R @ q) = copies env fs (R @ q)" if "q \<in> set cf" for q
  proof -
    have "q \<noteq> []" "hd q \<noteq> n"
      using ok that by auto
    then have "ftype fs1 (R @ q) = ftype fs (R @ q)"
      by (rule extends_source[OF k(1)])
    then show ?thesis
      by (rule copies_cong)
  qed
  have sets: "?A1 \<union> {p \<in> set cf. copies env fs1 (R @ p)}
      = A \<union> {q \<in> set (p # cf). copies env fs (R @ q)}"
    using cp by auto
  have run: "copy_loop env R (R @ [n]) (p # cf) (A, fs, out)
      = Inr (A \<union> {q \<in> set (p # cf). copies env fs (R @ q)}, fs', out')"
    by (subst copy_loop_Cons_append) (simp only: one rest sets sum.case)
  have ext: "extends fs fs' (R @ [n])"
    using k(1) ext' by (rule extends_trans)
  have settled_all: "\<forall>q \<in> set (p # cf). settled env fs' R n q"
    using settled_extends[OF k(3) ext' p] set' by simp
  have new: "\<forall>q d. ftype fs' (R @ n # q) = Some (Some d) \<longrightarrow>
                  ftype fs (R @ n # q) = Some (Some d) \<or> q \<in> set (p # cf)"
  proof (intro allI impI)
    fix q d
    assume "ftype fs' (R @ n # q) = Some (Some d)"
    then have "ftype fs1 (R @ n # q) = Some (Some d) \<or> q \<in> set cf"
      using new' by blast
    then show "ftype fs (R @ n # q) = Some (Some d) \<or> q \<in> set (p # cf)"
      using k(4) by auto
  qed
  have same: "fs' = fs" if a: "\<forall>q \<in> set (p # cf). settled env fs R n q"
  proof -
    have "settled env fs R n p"
      using a by simp
    from stage_one_settled[OF Cons.prems(1) p this, of A out]
    have "fs1 = fs"
      using one by auto
    then show ?thesis
      using same' a by simp
  qed
  have same_imp: "(\<forall>q \<in> set (p # cf). settled env fs R n q) \<longrightarrow> fs' = fs"
    using same by blast
  show ?case
    by (intro exI[of _ fs'] exI[of _ out'] conjI run inv' ext settled_all new same_imp)
qed

section \<open>Selecting a commit again\<close>

lemma copy_files_to_staging_Nil:
  "copy_files_to_staging env [] R S fs = Inr ({}, fs, [])"
  by (simp add: copy_files_to_staging_def)

lemma loop_break:
  "lower (strip line) = ''e'' \<Longrightarrow> selection_loop env rp R S commits (line # lines) st = Inr st"
  by simp

lemma loop_raise:
  assumes "lower (strip line) \<noteq> ''e''"
    and "copy_files_to_staging env (selected_changes rp commits line) R S (disk st) = Inl e"
  shows "selection_loop env rp R S commits (line # lines) st = Inl e"
  using assms
  by (auto simp: selected_changes_def Let_def copy_files_to_staging_Nil say_def
      split: option.splits if_splits)

lemma loop_continue:
  assumes ne: "lower (strip line) \<noteq> ''e''"
    and cp: "copy_files_to_staging env (selected_changes rp commits line) R S (disk st)
             = Inr (staged, fs', printed)"
  shows "\<exists>st'. disk st' = fs'
           \<and> overall_changed_files st' = overall_changed_files st \<union> staged
           \<and> (\<forall>lines. selection_loop env rp R S commits (line # lines) st
                        = selection_loop env rp R S commits lines st')"
proof (cases "py_int (lower (strip line))")
  case None
  then have "staged = {}" "fs' = disk st"
    using cp by (simp_all add: selected_changes_def copy_files_to_staging_Nil)
  then show ?thesis
    using ne None
    by (intro exI[of _ "say (''Invalid input. Please enter a valid number or '' @ quoted ''e''
                             @ ''.'') st"])
      (simp add: say_def)
next
  case (Some index)
  show ?thesis
  proof (cases "0 \<le> index \<and> index < int (length commits)")
    case False
    then have "staged = {}" "fs' = disk st"
      using cp Some by (auto simp: selected_changes_def copy_files_to_staging_Nil)
    then show ?thesis
      using ne Some False
      by (intro exI[of _ "say ''Index out of range. Please enter a valid index.'' st"])
        (auto simp: say_def)
  next
    case True
    define commit where "commit = commits ! nat index"
    define st2 where "st2 = say (''Processing commit '' @ take 7 (hexsha commit) @ '' (index ''
                               @ show_int index @ '')...'')
                              (st\<lparr>selected_commit_indices := selected_commit_indices st @ [index]\<rparr>)"
    have d2: "disk st2 = disk st" "overall_changed_files st2 = overall_changed_files st"
      by (simp_all add: st2_def say_def)
    show ?thesis
    proof (cases "parents commit = []")
      case np: True
      then have "staged = {}" "fs' = disk st"
        using cp Some by (auto simp: selected_changes_def copy_files_to_staging_Nil commit_def)
      then show ?thesis
        using ne Some True np d2
        by (intro exI[of _ "say (''Commit '' @ take 7 (hexsha commit)
                                 @ '' has no parent (initial commit), skipping.'') st2"])
          (simp add: say_def Let_def commit_def st2_def)
    next
      case hp: False
      define changed_files where "changed_files = diff_names rp (hd (parents commit)) (hexsha commit)"
      have sc: "selected_changes rp commits line = changed_files"
        using Some True hp by (simp add: selected_changes_def commit_def changed_files_def)
      show ?thesis
      proof (cases "changed_files = []")
        case em: True
        then have "staged = {}" "fs' = disk st"
          using cp sc by (simp_all add: copy_files_to_staging_Nil)
        then show ?thesis
          using ne Some True hp em d2
          by (intro exI[of _ "say (''No changed files in commit '' @ take 7 (hexsha commit) @ ''.'')
                                st2"])
            (simp add: say_def Let_def commit_def st2_def
              changed_files_def)
      next
        case ch: False
        have cp2: "copy_files_to_staging env changed_files R S (disk st2)
                   = Inr (staged, fs', printed)"
          using cp sc d2 by simp
        show ?thesis
          using ne Some True hp ch d2 cp2
          by (intro exI[of _ "say (''Staged '' @ show_nat (card staged)
                                   @ '' file(s) from commit '' @ take 7 (hexsha commit) @ ''.'')
                                (st2\<lparr>disk := fs',
                                     overall_changed_files := overall_changed_files st2 \<union> staged,
                                     stdout := stdout st2 @ printed\<rparr>)"])
            (simp add: say_def Let_def commit_def st2_def
              changed_files_def)
      qed
    qed
  qed
qed

lemma loop_agree:
  assumes "disk st = disk st'" and "overall_changed_files st = overall_changed_files st'"
  shows "outcome (selection_loop env rp R S commits lines st)
         = outcome (selection_loop env rp R S commits lines st')"
  using assms
proof (induction lines arbitrary: st st')
  case Nil
  then show ?case by simp
next
  case (Cons line lines)
  show ?case
  proof (cases "lower (strip line) = ''e''")
    case True
    then show ?thesis
      using Cons.prems by (simp add: outcome_def)
  next
    case False
    show ?thesis
    proof (cases "copy_files_to_staging env (selected_changes rp commits line) R S (disk st)")
      case (Inl e)
      then have r': "copy_files_to_staging env (selected_changes rp commits line) R S (disk st') = Inl e"
        using Cons.prems(1) by simp
      show ?thesis
        unfolding loop_raise[OF False Inl] loop_raise[OF False r'] ..
    next
      case (Inr r)
      obtain staged fs' printed where r: "r = (staged, fs', printed)"
        by (cases r)
      have c1: "copy_files_to_staging env (selected_changes rp commits line) R S (disk st)
                = Inr (staged, fs', printed)"
        using Inr r by simp
      then have c2: "copy_files_to_staging env (selected_changes rp commits line) R S (disk st')
                = Inr (staged, fs', printed)"
        using Cons.prems(1) by simp
      from loop_continue[OF False c1] obtain s1 where s1: "disk s1 = fs'"
        "overall_changed_files s1 = overall_changed_files st \<union> staged"
        "selection_loop env rp R S commits (line # lines) st
           = selection_loop env rp R S commits lines s1"
        by blast
      from loop_continue[OF False c2] obtain s2 where s2: "disk s2 = fs'"
        "overall_changed_files s2 = overall_changed_files st' \<union> staged"
        "selection_loop env rp R S commits (line # lines) st'
           = selection_loop env rp R S commits lines s2"
        by blast
      have "outcome (selection_loop env rp R S commits lines s1)
            = outcome (selection_loop env rp R S commits lines s2)"
        by (rule Cons.IH) (simp_all add: s1 s2 Cons.prems(2))
      then show ?thesis
        by (simp only: s1(3) s2(3))
    qed
  qed
qed

lemma staging_ok_empty:
  assumes "lookup fs (R @ [n]) = Some (Dir [])"
  shows "staging_ok env fs R n"
proof -
  have below: "ftype fs (R @ n # q) = (if q = [] then Some None else None)" for q
  proof -
    have "lookup fs (R @ n # q) = lookup (Dir []) q"
      using lookup_append[of fs "R @ [n]" q] assms by simp
    then show ?thesis
      by (cases q) (simp_all add: ftype_def)
  qed
  have "ftype fs (R @ [n]) \<noteq> None"
    using below[of "[]"] by simp
  then have "ftype fs R = Some None"
    by (rule ftype_above) simp
  then show ?thesis
    unfolding staging_ok_def below by simp
qed

lemma selected_changes_ok:
  assumes "\<forall>parent child. \<forall>p \<in> set (diff_names rp parent child). p \<noteq> [] \<and> hd p \<noteq> n"
  shows "\<forall>p \<in> set (selected_changes rp commits line). p \<noteq> [] \<and> hd p \<noteq> n"
  using assms by (fastforce simp: selected_changes_def split: option.splits if_splits)

lemma loop_stage:
  assumes inv: "staging_ok env (disk st) R n"
    and ok: "\<forall>p \<in> set (selected_changes rp commits line). p \<noteq> [] \<and> hd p \<noteq> n"
    and ne: "lower (strip line) \<noteq> ''e''"
  shows "\<exists>st'. (\<forall>lines. selection_loop env rp R (R @ [n]) commits (line # lines) st
                        = selection_loop env rp R (R @ [n]) commits lines st')
           \<and> staging_ok env (disk st') R n \<and> extends (disk st) (disk st') (R @ [n])
           \<and> overall_changed_files st'
               = overall_changed_files st
                 \<union> {p \<in> set (selected_changes rp commits line). copies env (disk st) (R @ p)}
           \<and> (\<forall>p \<in> set (selected_changes rp commits line). settled env (disk st') R n p)
           \<and> ((\<forall>p \<in> set (selected_changes rp commits line). settled env (disk st) R n p)
                \<longrightarrow> disk st' = disk st)
           \<and> (\<forall>q d. ftype (disk st') (R @ n # q) = Some (Some d) \<longrightarrow>
                  ftype (disk st) (R @ n # q) = Some (Some d)
                  \<or> q \<in> set (selected_changes rp commits line))"
proof -
  let ?cf = "selected_changes rp commits line"
  from copy_loop_effect[OF inv ok, of "{}" "[]"] obtain fs' out' where
    run: "copy_loop env R (R @ [n]) ?cf ({}, disk st, [])
            = Inr ({} \<union> {p \<in> set ?cf. copies env (disk st) (R @ p)}, fs', out')"
    and inv': "staging_ok env fs' R n" and ext: "extends (disk st) fs' (R @ [n])"
    and set': "\<forall>p \<in> set ?cf. settled env fs' R n p"
    and same: "(\<forall>p \<in> set ?cf. settled env (disk st) R n p) \<longrightarrow> fs' = disk st"
    and new: "\<forall>q d. ftype fs' (R @ n # q) = Some (Some d) \<longrightarrow>
                ftype (disk st) (R @ n # q) = Some (Some d) \<or> q \<in> set ?cf"
    by blast
  have cp: "copy_files_to_staging env ?cf R (R @ [n]) (disk st)
            = Inr ({p \<in> set ?cf. copies env (disk st) (R @ p)}, fs', out')"
    using run by (simp add: copy_files_to_staging_def)
  from loop_continue[OF ne cp] obtain st' where st': "disk st' = fs'"
    "overall_changed_files st'
       = overall_changed_files st \<union> {p \<in> set ?cf. copies env (disk st) (R @ p)}"
    "\<forall>lines. selection_loop env rp R (R @ [n]) commits (line # lines) st
              = selection_loop env rp R (R @ [n]) commits lines st'"
    by blast
  have a: "staging_ok env (disk st') R n"
    unfolding st'(1) by (rule inv')
  have b: "extends (disk st) (disk st') (R @ [n])"
    unfolding st'(1) by (rule ext)
  have c: "\<forall>p \<in> set ?cf. settled env (disk st') R n p"
    unfolding st'(1) by (rule set')
  have d: "(\<forall>p \<in> set ?cf. settled env (disk st) R n p) \<longrightarrow> disk st' = disk st"
    unfolding st'(1) by (rule same)
  have e: "\<forall>q d. ftype (disk st') (R @ n # q) = Some (Some d) \<longrightarrow>
              ftype (disk st) (R @ n # q) = Some (Some d) \<or> q \<in> set ?cf"
    unfolding st'(1) by (rule new)
  show ?thesis
    by (intro exI[of _ st'] conjI) (fact st'(3) a b st'(2) c d e)+
qed

lemma staged_before_keeps:
  assumes sb: "staged_before env R n cf st" and ext: "extends (disk st) (disk st') (R @ [n])"
    and sub: "overall_changed_files st \<subseteq> overall_changed_files st'"
    and ok: "\<forall>p \<in> set cf. p \<noteq> [] \<and> hd p \<noteq> n"
  shows "staged_before env R n cf st'"
proof -
  have s: "settled env (disk st') R n p" if "p \<in> set cf" for p
    using settled_extends[OF _ ext, of env p] sb ok that by (simp add: staged_before_def)
  have c: "copies env (disk st') (R @ p) = copies env (disk st) (R @ p)" if "p \<in> set cf" for p
    by (rule copies_cong, rule extends_source[OF ext]) (use ok that in simp_all)
  have "{p \<in> set cf. copies env (disk st') (R @ p)} \<subseteq> overall_changed_files st'"
    using c sb sub unfolding staged_before_def by blast
  then show ?thesis
    unfolding staged_before_def using s by blast
qed

lemma reselect_tail:
  assumes H: "\<forall>parent child. \<forall>p \<in> set (diff_names rp parent child). p \<noteq> [] \<and> hd p \<noteq> n"
    and ne: "lower (strip l) \<noteq> ''e''"
    and inv: "staging_ok env (disk st) R n"
    and sb: "staged_before env R n (selected_changes rp commits l) st"
  shows "outcome (selection_loop env rp R (R @ [n]) commits (lines2 @ l # lines3) st)
         = outcome (selection_loop env rp R (R @ [n]) commits (lines2 @ lines3) st)"
  using inv sb
proof (induction lines2 arbitrary: st)
  case Nil
  from loop_stage[OF Nil(1) selected_changes_ok[OF H, of commits l] ne]
  obtain st' where
    step: "\<forall>lines. selection_loop env rp R (R @ [n]) commits (l # lines) st
                    = selection_loop env rp R (R @ [n]) commits lines st'"
    and ocf: "overall_changed_files st'
               = overall_changed_files st
                 \<union> {p \<in> set (selected_changes rp commits l). copies env (disk st) (R @ p)}"
    and same: "(\<forall>p \<in> set (selected_changes rp commits l). settled env (disk st) R n p)
                \<longrightarrow> disk st' = disk st"
    by blast
  have d: "disk st' = disk st"
    using same Nil(2) by (simp add: staged_before_def)
  have o: "overall_changed_files st' = overall_changed_files st"
    using ocf Nil(2) by (auto simp: staged_before_def)
  have "outcome (selection_loop env rp R (R @ [n]) commits lines3 st')
        = outcome (selection_loop env rp R (R @ [n]) commits lines3 st)"
    using d o by (rule loop_agree)
  then show ?case
    using step by simp
next
  case (Cons line lines2)
  show ?case
  proof (cases "lower (strip line) = ''e''")
    case True
    then show ?thesis
      by simp
  next
    case False
    from loop_stage[OF Cons.prems(1) selected_changes_ok[OF H, of commits line] False]
    obtain st' where
      step: "\<forall>lines. selection_loop env rp R (R @ [n]) commits (line # lines) st
                      = selection_loop env rp R (R @ [n]) commits lines st'"
      and inv': "staging_ok env (disk st') R n"
      and ext: "extends (disk st) (disk st') (R @ [n])"
      and ocf: "overall_changed_files st'
                 = overall_changed_files st
                   \<union> {p \<in> set (selected_changes rp commits line). copies env (disk st) (R @ p)}"
      by blast
    have sub: "overall_changed_files st \<subseteq> overall_changed_files st'"
      using ocf by blast
    have sb': "staged_before env R n (selected_changes rp commits l) st'"
      using Cons.prems(2) ext sub selected_changes_ok[OF H] by (rule staged_before_keeps)
    have "outcome (selection_loop env rp R (R @ [n]) commits (lines2 @ l # lines3) st')
          = outcome (selection_loop env rp R (R @ [n]) commits (lines2 @ lines3) st')"
      using inv' sb' by (rule Cons.IH)
    then show ?thesis
      using step by simp
  qed
qed

lemma selected_changes_index:
  "py_int (lower (strip l)) = py_int (lower (strip l'))
   \<Longrightarrow> selected_changes rp commits l = selected_changes rp commits l'"
  by (simp add: selected_changes_def)

lemma index_not_e:
  assumes "py_int (lower (strip l)) = Some index"
  shows "lower (strip l) \<noteq> ''e''"
proof
  assume "lower (strip l) = ''e''"
  then have "py_int (lower (strip l)) = None"
    by (simp only: py_int_e)
  then show False
    using assms by simp
qed

lemma reselect_head:
  assumes H: "\<forall>parent child. \<forall>p \<in> set (diff_names rp parent child). p \<noteq> [] \<and> hd p \<noteq> n"
    and l: "py_int (lower (strip l)) = Some index"
    and l': "py_int (lower (strip l')) = Some index"
    and inv: "staging_ok env (disk st) R n"
  shows "outcome (selection_loop env rp R (R @ [n]) commits (lines1 @ l # lines2 @ l' # lines3) st)
         = outcome (selection_loop env rp R (R @ [n]) commits (lines1 @ l # lines2 @ lines3) st)"
  using inv
proof (induction lines1 arbitrary: st)
  case Nil
  have ne: "lower (strip l) \<noteq> ''e''"
    using l by (rule index_not_e)
  have ne': "lower (strip l') \<noteq> ''e''"
    using l' by (rule index_not_e)
  have same_cf: "selected_changes rp commits l = selected_changes rp commits l'"
    by (rule selected_changes_index) (simp add: l l')
  from loop_stage[OF Nil selected_changes_ok[OF H, of commits l] ne]
  obtain st' where
    step: "\<forall>lines. selection_loop env rp R (R @ [n]) commits (l # lines) st
                    = selection_loop env rp R (R @ [n]) commits lines st'"
    and inv': "staging_ok env (disk st') R n"
    and ext: "extends (disk st) (disk st') (R @ [n])"
    and ocf: "overall_changed_files st'
               = overall_changed_files st
                 \<union> {p \<in> set (selected_changes rp commits l). copies env (disk st) (R @ p)}"
    and set': "\<forall>p \<in> set (selected_changes rp commits l). settled env (disk st') R n p"
    by blast
  have c: "copies env (disk st') (R @ p) = copies env (disk st) (R @ p)"
    if "p \<in> set (selected_changes rp commits l)" for p
    by (rule copies_cong, rule extends_source[OF ext])
      (use selected_changes_ok[OF H, of commits l] that in simp_all)
  have "staged_before env R n (selected_changes rp commits l) st'"
    unfolding staged_before_def using set' ocf c by auto
  then have sb: "staged_before env R n (selected_changes rp commits l') st'"
    by (simp only: same_cf)
  have "outcome (selection_loop env rp R (R @ [n]) commits (lines2 @ l' # lines3) st')
        = outcome (selection_loop env rp R (R @ [n]) commits (lines2 @ lines3) st')"
    using H ne' inv' sb by (rule reselect_tail)
  then show ?case
    using step by simp
next
  case (Cons line lines1)
  show ?case
  proof (cases "lower (strip line) = ''e''")
    case True
    then show ?thesis
      by simp
  next
    case False
    from loop_stage[OF Cons.prems selected_changes_ok[OF H, of commits line] False]
    obtain st' where
      step: "\<forall>lines. selection_loop env rp R (R @ [n]) commits (line # lines) st
                      = selection_loop env rp R (R @ [n]) commits lines st'"
      and inv': "staging_ok env (disk st') R n"
      by blast
    have "outcome (selection_loop env rp R (R @ [n]) commits (lines1 @ l # lines2 @ l' # lines3) st')
          = outcome (selection_loop env rp R (R @ [n]) commits (lines1 @ l # lines2 @ lines3) st')"
      using inv' by (rule Cons.IH)
    then show ?thesis
      using step by simp
  qed
qed


lemma demo_ready_staging:
  "lookup (disk demo_ready_state) ([''repo''] @ [''staging_folder'']) = Some (Dir [])"
  by (simp add: demo_ready_state_def demo_ready_fs_def)

lemma demo_repo_paths:
  "\<forall>parent child. \<forall>p \<in> set (diff_names demo_repo parent child).
      p \<noteq> [] \<and> hd p \<noteq> ''staging_folder''"
  by (simp add: demo_repo_def)

lemma demo_index_lines:
  "py_int (lower (strip ''0'')) = Some 0" "py_int (lower (strip '' 0 '')) = Some 0"
  by code_simp+



section \<open>The manifest\<close>

lemma copies_result:
  assumes "\<forall>src. env src \<noteq> Some Write_interrupted"
  shows "copies env fs src \<longleftrightarrow> (\<exists>d. copy_result env fs src = Some d)"
proof (cases "env src")
  case None
  then show ?thesis
    by (auto simp: copies_def copy_result_def path_isfile_ftype split: option.splits)
next
  case (Some f)
  then have "f = Read_denied"
    using assms by (cases f) auto
  then show ?thesis
    using Some by (auto simp: copies_def copy_result_def split: option.splits)
qed

lemma stage_lists:
  assumes nowi: "\<forall>src. env src \<noteq> Some Write_interrupted"
    and ok: "\<forall>p \<in> set cf. p \<noteq> [] \<and> hd p \<noteq> n"
    and ex: "staging_lists R n st"
    and inv': "staging_ok env (disk st') R n"
    and ext: "extends (disk st) (disk st') (R @ [n])"
    and ocf: "overall_changed_files st'
              = overall_changed_files st \<union> {p \<in> set cf. copies env (disk st) (R @ p)}"
    and set': "\<forall>p \<in> set cf. settled env (disk st') R n p"
    and new: "\<forall>q d. ftype (disk st') (R @ n # q) = Some (Some d) \<longrightarrow>
                ftype (disk st) (R @ n # q) = Some (Some d) \<or> q \<in> set cf"
  shows "staging_lists R n st'"
proof -
  have fin: "finite (overall_changed_files st')"
    using ex ocf by (simp add: staging_lists_def)
  have old: "q \<in> overall_changed_files st \<longleftrightarrow> path_isfile (disk st) (R @ n # q)" for q
    using ex by (simp add: staging_lists_def)
  have src: "ftype (disk st') (R @ q) = ftype (disk st) (R @ q)" if "q \<in> set cf" for q
    by (rule extends_source[OF ext]) (use ok that in simp_all)
  have A: "path_isfile (disk st') (R @ n # q)" if q: "q \<in> overall_changed_files st'" for q
  proof (cases "q \<in> overall_changed_files st")
    case True
    then obtain d where "ftype (disk st) (R @ n # q) = Some (Some d)"
      using old[of q] by (auto simp: path_isfile_ftype)
    then have "ftype (disk st') (R @ n # q) = Some (Some d)"
      using ext by (simp add: extends_def)
    then show ?thesis
      by (auto simp: path_isfile_ftype)
  next
    case False
    then have qc: "q \<in> set cf" and cp: "copies env (disk st) (R @ q)"
      using q ocf by auto
    from cp obtain d where d: "copy_result env (disk st) (R @ q) = Some d"
      using copies_result[OF nowi] by blast
    have ne: "ftype (disk st) (R @ q) \<noteq> None"
      using cp by (auto simp: copies_def path_isfile_ftype)
    have d': "copy_result env (disk st') (R @ q) = Some d"
      using copy_result_cong[OF src[OF qc], of env] d by simp
    have "settled env (disk st') R n q"
      using set' qc by blast
    then have "ftype (disk st') (R @ n # q) = Some (Some d)"
      using ne d' src[OF qc] by (simp add: settled_def)
    then show ?thesis
      by (auto simp: path_isfile_ftype)
  qed
  have B: "q \<in> overall_changed_files st'" if "path_isfile (disk st') (R @ n # q)" for q
  proof -
    from that obtain d where d: "ftype (disk st') (R @ n # q) = Some (Some d)"
      by (auto simp: path_isfile_ftype)
    with new consider "ftype (disk st) (R @ n # q) = Some (Some d)" | "q \<in> set cf"
      by blast
    then show ?thesis
    proof cases
      case 1
      then have "q \<in> overall_changed_files st"
        using old[of q] by (auto simp: path_isfile_ftype)
      then show ?thesis
        using ocf by simp
    next
      case 2
      have "copy_result env (disk st') (R @ q) = Some d"
        using inv' d by (simp add: staging_ok_def)
      then have "copies env (disk st') (R @ q)"
        using copies_result[OF nowi] by blast
      then have "copies env (disk st) (R @ q)"
        using copies_cong[OF src[OF 2], of env] by simp
      then show ?thesis
        using ocf 2 by simp
    qed
  qed
  show ?thesis
    unfolding staging_lists_def using fin A B by blast
qed

lemma loop_files:
  assumes H: "\<forall>parent child. \<forall>p \<in> set (diff_names rp parent child). p \<noteq> [] \<and> hd p \<noteq> n"
    and nowi: "\<forall>src. env src \<noteq> Some Write_interrupted"
    and inv: "staging_ok env (disk st) R n" and ex: "staging_lists R n st"
    and run: "selection_loop env rp R (R @ [n]) commits lines st = Inr st'"
  shows "staging_ok env (disk st') R n \<and> staging_lists R n st'
         \<and> extends (disk st) (disk st') (R @ [n])"
  using inv ex run
proof (induction lines arbitrary: st)
  case Nil
  then show ?case by simp
next
  case (Cons line lines)
  show ?case
  proof (cases "lower (strip line) = ''e''")
    case True
    then have "st' = st"
      using Cons.prems(3) by simp
    then show ?thesis
      using Cons.prems(1,2) by (simp add: extends_refl)
  next
    case False
    let ?cf = "selected_changes rp commits line"
    from loop_stage[OF Cons.prems(1) selected_changes_ok[OF H, of commits line] False]
    obtain st1 where
      step: "\<forall>lines. selection_loop env rp R (R @ [n]) commits (line # lines) st
                      = selection_loop env rp R (R @ [n]) commits lines st1"
      and inv1: "staging_ok env (disk st1) R n"
      and ext1: "extends (disk st) (disk st1) (R @ [n])"
      and ocf1: "overall_changed_files st1
                 = overall_changed_files st \<union> {p \<in> set ?cf. copies env (disk st) (R @ p)}"
      and set1: "\<forall>p \<in> set ?cf. settled env (disk st1) R n p"
      and new1: "\<forall>q d. ftype (disk st1) (R @ n # q) = Some (Some d) \<longrightarrow>
                   ftype (disk st) (R @ n # q) = Some (Some d) \<or> q \<in> set ?cf"
      by blast
    have ex1: "staging_lists R n st1"
      using nowi selected_changes_ok[OF H, of commits line] Cons.prems(2) inv1 ext1 ocf1 set1 new1
      by (rule stage_lists)
    have run1: "selection_loop env rp R (R @ [n]) commits lines st1 = Inr st'"
      using Cons.prems(3) step by simp
    from Cons.IH[OF inv1 ex1 run1]
    have "staging_ok env (disk st') R n" "staging_lists R n st'"
      "extends (disk st1) (disk st') (R @ [n])"
      by simp_all
    then show ?thesis
      using extends_trans[OF ext1] by blast
  qed
qed

lemma staging_lists_empty:
  assumes "lookup (disk st) (R @ [n]) = Some (Dir [])" and "overall_changed_files st = {}"
  shows "staging_lists R n st"
proof -
  have "lookup (disk st) (R @ n # q) = lookup (Dir []) q" for q
    using lookup_append[of "disk st" "R @ [n]" q] assms(1) by simp
  then have "\<not> path_isfile (disk st) (R @ n # q)" for q
    by (cases q) (simp_all add: path_isfile_def)
  then show ?thesis
    using assms(2) by (simp add: staging_lists_def)
qed

lemma write_file_effect:
  assumes dir: "ftype fs (butlast p) = Some None" and p: "p \<noteq> []"
    and nd: "ftype fs p \<noteq> Some None"
  shows "\<exists>fs1 fs2. open_write fs p = Inr fs1 \<and> write_data fs1 p d = fs2
           \<and> lookup fs2 p = Some (File d)
           \<and> (\<forall>q. ftype fs2 q = (if prefix p q then ftype (File d) (drop (length p) q)
                                   else ftype fs q))"
proof -
  have isd: "path_isdir fs (butlast p)" and nisd: "\<not> path_isdir fs p"
    using dir nd by (simp_all add: path_isdir_ftype)
  obtain fs1 where put1: "put fs p (File (Bytes [])) = Some fs1"
    using put_Some_iff[of fs p "File (Bytes [])"] p isd by blast
  obtain fs2 where put2: "put fs p (File d) = Some fs2"
    using put_Some_iff[of fs p "File d"] p isd by blast
  have ow: "open_write fs p = Inr fs1"
    using p isd nisd put1 by (simp add: open_write_Inr)
  have "put fs1 p (File d) = Some fs2"
    using put_put[OF put1] put2 by simp
  then have wd: "write_data fs1 p d = fs2"
    by (simp add: write_data_def)
  have l: "lookup fs2 p = Some (File d)"
    using lookup_put_below[OF put2, of "[]"] by simp
  show ?thesis
    using ow wd l ftype_put[OF put2] by blast
qed


lemma demo_no_interrupt: "\<forall>src. no_faults src \<noteq> Some Write_interrupted"
  by (simp add: no_faults_def)

lemma demo_ready_set: "overall_changed_files demo_ready_state = {}"
  by (simp add: demo_ready_state_def)

lemma demo_no_manifest_dir:
  "\<not> path_isdir (disk demo_ready_state) ([''repo''] @ [''changes.json''])"
  by (simp add: demo_ready_state_def demo_ready_fs_def path_isdir_def)

lemma demo_loop_returns:
  "\<not> isl (selection_loop no_faults demo_repo [''repo''] ([''repo''] @ [''staging_folder''])
            demo_commits [''0'', ''e''] demo_ready_state)"
  by code_simp



end
